theory Spec2Isabelle
  imports Complex_Main "HOL-Library.AList" "HOL-Library.Product_Lexorder" "HOL-Library.Multiset"
begin

section \<open>Data model of \<^verbatim>\<open>dask_cuda/proxify_host_file.py\<close>\<close>

text \<open>
  Python exceptions are values: an \<^verbatim>\<open>assert\<close> that fails is \<open>AssertionError\<close> with its
  message (empty when the source gives none), a missing dictionary or set key is
  \<open>KeyError\<close>, \<^verbatim>\<open>max\<close> of an empty sequence is \<open>ValueError\<close>.  A call of
  \<^verbatim>\<open>warnings.warn\<close> is returned as a value next to the new state.
\<close>

datatype error = AssertionError string | KeyError | ValueError

datatype warning = TallyResetWarning int
  \<comment> \<open>"ProxyManager is empty but the tally of ... is n bytes. Resetting the tally."\<close>

text \<open>
  A \<^verbatim>\<open>ProxyObject\<close> as this file sees it: its identity \<^verbatim>\<open>id(proxy)\<close>, the value that
  \<^verbatim>\<open>dask.sizeof.sizeof(proxy)\<close> reports, the collection that
  \<^verbatim>\<open>proxy._pxy_get_device_memory_objects()\<close> yields (in iteration order; a device memory
  object is named by its hashable identity), and the fields \<^verbatim>\<open>last_access\<close> and
  \<^verbatim>\<open>serializer\<close> of \<^verbatim>\<open>proxy._pxy_get()\<close>.  Access times are results of
  \<^verbatim>\<open>time.monotonic()\<close>; they are only compared, never computed with.
\<close>

record ProxyObject =
  pxy_id :: nat
  pxy_sizeof :: int
  pxy_get_device_memory_objects :: "nat list"
  last_access :: real
  serializer :: "string option"

text \<open>
  Python's \<^verbatim>\<open>dict\<close> keeps insertion order, so a dictionary is an association list with
  distinct keys: \<open>AList.update\<close> overwrites in place or appends, \<open>AList.delete\<close>
  drops the key.  A Python \<^verbatim>\<open>set\<close> is a list without repetitions.
\<close>

definition set_add :: "'a \<Rightarrow> 'a list \<Rightarrow> 'a list" where
  "set_add x xs = (if x \<in> set xs then xs else xs @ [x])"

definition dict_get_default :: "('k \<times> 'v list) list \<Rightarrow> 'k \<Rightarrow> 'v list" where
  \<comment> \<open>\<^verbatim>\<open>d[k]\<close> on a \<^verbatim>\<open>defaultdict(set)\<close> or \<^verbatim>\<open>defaultdict(list)\<close>: empty when the key is new\<close>
  "dict_get_default d k = (case map_of d k of None \<Rightarrow> [] | Some v \<Rightarrow> v)"

text \<open>
  Class \<^verbatim>\<open>Proxies\<close>: \<^verbatim>\<open>_proxy_id_to_proxy\<close> maps \<^verbatim>\<open>id(proxy)\<close> to a weak reference
  (the address of the object it refers to) and \<^verbatim>\<open>_mem_usage\<close> is the tally.
  \<^verbatim>\<open>ProxiesOnHost\<close> and \<^verbatim>\<open>ProxiesOnDisk\<close> add no field; \<^verbatim>\<open>ProxiesOnDevice\<close> adds two.
\<close>

record Proxies =
  proxy_id_to_proxy :: "(nat \<times> nat) list"
  mem_usage :: int

record ProxiesOnDevice = Proxies +
  proxy_id_to_dev_mems :: "(nat \<times> nat list) list"
  dev_mem_to_proxy_ids :: "(nat \<times> nat list) list"

definition Proxies_init :: Proxies where
  "Proxies_init = \<lparr>proxy_id_to_proxy = [], mem_usage = 0\<rparr>"

definition ProxiesOnDevice_init :: ProxiesOnDevice where
  "ProxiesOnDevice_init =
     \<lparr>proxy_id_to_proxy = [], mem_usage = 0, proxy_id_to_dev_mems = [], dev_mem_to_proxy_ids = []\<rparr>"

definition contains_proxy_id :: "'a Proxies_scheme \<Rightarrow> nat \<Rightarrow> bool" where
  "contains_proxy_id self proxy_id = (proxy_id \<in> set (map fst (proxy_id_to_proxy self)))"

definition Proxies_len :: "'a Proxies_scheme \<Rightarrow> nat" where
  "Proxies_len self = length (proxy_id_to_proxy self)"

text \<open>
  \<^verbatim>\<open>Proxies.add\<close> and \<^verbatim>\<open>Proxies.remove\<close>; the abstract methods \<^verbatim>\<open>mem_usage_add\<close> and
  \<^verbatim>\<open>mem_usage_remove\<close> are the first argument.
\<close>

definition Proxies_add ::
  "(ProxyObject \<Rightarrow> 'a Proxies_scheme \<Rightarrow> error + 'a Proxies_scheme) \<Rightarrow>
   'a Proxies_scheme \<Rightarrow> ProxyObject \<Rightarrow> error + 'a Proxies_scheme" where
  "Proxies_add mem_usage_add self proxy =
     (if contains_proxy_id self (pxy_id proxy) then Inl (AssertionError [])
      else mem_usage_add proxy
             (self\<lparr>proxy_id_to_proxy :=
                AList.update (pxy_id proxy) (pxy_id proxy) (proxy_id_to_proxy self)\<rparr>))"

definition Proxies_remove ::
  "(ProxyObject \<Rightarrow> 'a Proxies_scheme \<Rightarrow> error + 'a Proxies_scheme) \<Rightarrow>
   'a Proxies_scheme \<Rightarrow> ProxyObject \<Rightarrow> error + 'a Proxies_scheme \<times> warning list" where
  "Proxies_remove mem_usage_remove self proxy =
     (if \<not> contains_proxy_id self (pxy_id proxy) then Inl KeyError
      else case mem_usage_remove proxy
                  (self\<lparr>proxy_id_to_proxy :=
                     AList.delete (pxy_id proxy) (proxy_id_to_proxy self)\<rparr>) of
             Inl e \<Rightarrow> Inl e
           | Inr self' \<Rightarrow>
               if length (proxy_id_to_proxy self') = 0 then
                 if mem_usage self' \<noteq> 0
                 then Inr (self'\<lparr>mem_usage := 0\<rparr>, [TallyResetWarning (mem_usage self')])
                 else Inr (self', [])
               else Inr (self', []))"

subsection \<open>\<^verbatim>\<open>ProxiesOnHost\<close> and \<^verbatim>\<open>ProxiesOnDisk\<close>\<close>

definition ProxiesOnHost_mem_usage_add :: "ProxyObject \<Rightarrow> Proxies \<Rightarrow> error + Proxies" where
  "ProxiesOnHost_mem_usage_add proxy self =
     Inr (self\<lparr>mem_usage := mem_usage self + pxy_sizeof proxy\<rparr>)"

definition ProxiesOnHost_mem_usage_remove :: "ProxyObject \<Rightarrow> Proxies \<Rightarrow> error + Proxies" where
  "ProxiesOnHost_mem_usage_remove proxy self =
     Inr (self\<lparr>mem_usage := mem_usage self - pxy_sizeof proxy\<rparr>)"

definition ProxiesOnHost_add :: "Proxies \<Rightarrow> ProxyObject \<Rightarrow> error + Proxies" where
  "ProxiesOnHost_add = Proxies_add ProxiesOnHost_mem_usage_add"

definition ProxiesOnHost_remove ::
  "Proxies \<Rightarrow> ProxyObject \<Rightarrow> error + Proxies \<times> warning list" where
  "ProxiesOnHost_remove = Proxies_remove ProxiesOnHost_mem_usage_remove"

subsection \<open>\<^verbatim>\<open>ProxiesOnDevice\<close>\<close>

text \<open>
  \<open>sizeof\<close> is \<^verbatim>\<open>dask.sizeof.sizeof\<close> on device memory objects, a parameter.
  The loop of \<^verbatim>\<open>mem_usage_add\<close> runs over the proxy's device memory objects; reading
  \<^verbatim>\<open>self.dev_mem_to_proxy_ids[dev_mem]\<close> creates an empty entry for a new key, which the
  following \<^verbatim>\<open>ps.add(proxy_id)\<close> fills.
\<close>

fun mem_usage_add_loop ::
  "(nat \<Rightarrow> int) \<Rightarrow> nat \<Rightarrow> nat list \<Rightarrow> ProxiesOnDevice \<Rightarrow> error + ProxiesOnDevice" where
  "mem_usage_add_loop sizeof proxy_id [] self = Inr self"
| "mem_usage_add_loop sizeof proxy_id (dev_mem # rest) self =
     (case map_of (proxy_id_to_dev_mems self) proxy_id of
        None \<Rightarrow> Inl KeyError
      | Some ms \<Rightarrow>
          let self1 = self\<lparr>proxy_id_to_dev_mems :=
                        AList.update proxy_id (set_add dev_mem ms) (proxy_id_to_dev_mems self)\<rparr>;
              ps = dict_get_default (dev_mem_to_proxy_ids self1) dev_mem;
              self2 = (if length ps = 0
                       then self1\<lparr>mem_usage := mem_usage self1 + sizeof dev_mem\<rparr>
                       else self1)
          in mem_usage_add_loop sizeof proxy_id rest
               (self2\<lparr>dev_mem_to_proxy_ids :=
                  AList.update dev_mem (set_add proxy_id ps) (dev_mem_to_proxy_ids self2)\<rparr>))"

definition ProxiesOnDevice_mem_usage_add ::
  "(nat \<Rightarrow> int) \<Rightarrow> ProxyObject \<Rightarrow> ProxiesOnDevice \<Rightarrow> error + ProxiesOnDevice" where
  "ProxiesOnDevice_mem_usage_add sizeof proxy self =
     (let proxy_id = pxy_id proxy in
      if proxy_id \<in> set (map fst (proxy_id_to_dev_mems self)) then Inl (AssertionError [])
      else mem_usage_add_loop sizeof proxy_id (pxy_get_device_memory_objects proxy)
             (self\<lparr>proxy_id_to_dev_mems :=
                AList.update proxy_id [] (proxy_id_to_dev_mems self)\<rparr>))"

text \<open>
  \<^verbatim>\<open>mem_usage_remove\<close> pops the set recorded for the proxy and walks it;
  \<^verbatim>\<open>set.remove\<close> raises \<^verbatim>\<open>KeyError\<close> when the element is absent.
\<close>

fun mem_usage_remove_loop ::
  "(nat \<Rightarrow> int) \<Rightarrow> nat \<Rightarrow> nat list \<Rightarrow> ProxiesOnDevice \<Rightarrow> error + ProxiesOnDevice" where
  "mem_usage_remove_loop sizeof proxy_id [] self = Inr self"
| "mem_usage_remove_loop sizeof proxy_id (dev_mem # rest) self =
     (let ps = dict_get_default (dev_mem_to_proxy_ids self) dev_mem in
      if proxy_id \<notin> set ps then Inl KeyError
      else
        let ps' = removeAll proxy_id ps in
        if length ps' = 0
        then mem_usage_remove_loop sizeof proxy_id rest
               (self\<lparr>dev_mem_to_proxy_ids := AList.delete dev_mem (dev_mem_to_proxy_ids self),
                      mem_usage := mem_usage self - sizeof dev_mem\<rparr>)
        else mem_usage_remove_loop sizeof proxy_id rest
               (self\<lparr>dev_mem_to_proxy_ids :=
                  AList.update dev_mem ps' (dev_mem_to_proxy_ids self)\<rparr>))"

definition ProxiesOnDevice_mem_usage_remove ::
  "(nat \<Rightarrow> int) \<Rightarrow> ProxyObject \<Rightarrow> ProxiesOnDevice \<Rightarrow> error + ProxiesOnDevice" where
  "ProxiesOnDevice_mem_usage_remove sizeof proxy self =
     (let proxy_id = pxy_id proxy in
      case map_of (proxy_id_to_dev_mems self) proxy_id of
        None \<Rightarrow> Inl KeyError
      | Some ms \<Rightarrow>
          mem_usage_remove_loop sizeof proxy_id ms
            (self\<lparr>proxy_id_to_dev_mems := AList.delete proxy_id (proxy_id_to_dev_mems self)\<rparr>))"

definition ProxiesOnDevice_add ::
  "(nat \<Rightarrow> int) \<Rightarrow> ProxiesOnDevice \<Rightarrow> ProxyObject \<Rightarrow> error + ProxiesOnDevice" where
  "ProxiesOnDevice_add sizeof = Proxies_add (ProxiesOnDevice_mem_usage_add sizeof)"

definition ProxiesOnDevice_remove ::
  "(nat \<Rightarrow> int) \<Rightarrow> ProxiesOnDevice \<Rightarrow> ProxyObject \<Rightarrow> error + ProxiesOnDevice \<times> warning list" where
  "ProxiesOnDevice_remove sizeof = Proxies_remove (ProxiesOnDevice_mem_usage_remove sizeof)"

subsection \<open>\<^verbatim>\<open>ProxyManager\<close>\<close>

record ProxyManager =
  disk :: Proxies
  host :: Proxies
  dev :: ProxiesOnDevice
  device_memory_limit :: int
  host_memory_limit :: int

definition ProxyManager_init :: "int \<Rightarrow> int \<Rightarrow> ProxyManager" where
  "ProxyManager_init device_memory_limit' memory_limit =
     \<lparr>disk = Proxies_init, host = Proxies_init, dev = ProxiesOnDevice_init,
      device_memory_limit = device_memory_limit', host_memory_limit = memory_limit\<rparr>"

text \<open>
  The three \<^verbatim>\<open>Proxies\<close> objects of a manager are told apart by identity (\<^verbatim>\<open>is\<close>,
  \<^verbatim>\<open>is not\<close>); \<open>proxies_ref\<close> names which of them a reference points to.
\<close>

datatype proxies_ref = Disk | Host | Dev

definition get_proxies_by_serializer :: "string option \<Rightarrow> proxies_ref" where
  "get_proxies_by_serializer serializer' =
     (if serializer' = Some ''disk'' then Disk
      else if serializer' \<in> {Some ''dask'', Some ''pickle''} then Host
      else Dev)"

definition get_proxies_by_proxy_object :: "ProxyManager \<Rightarrow> ProxyObject \<Rightarrow> proxies_ref option" where
  "get_proxies_by_proxy_object self proxy =
     (let proxy_id = pxy_id proxy in
      if contains_proxy_id (dev self) proxy_id then Some Dev
      else if contains_proxy_id (host self) proxy_id then Some Host
      else if contains_proxy_id (disk self) proxy_id then Some Disk
      else None)"

definition ProxyManager_contains :: "ProxyManager \<Rightarrow> nat \<Rightarrow> bool" where
  "ProxyManager_contains self proxy_id =
     (contains_proxy_id (disk self) proxy_id
      \<or> contains_proxy_id (host self) proxy_id
      \<or> contains_proxy_id (dev self) proxy_id)"

text \<open>Method calls on a \<^verbatim>\<open>Proxies\<close> reference dispatch on the object referred to.\<close>

definition proxies_add ::
  "(nat \<Rightarrow> int) \<Rightarrow> proxies_ref \<Rightarrow> ProxyManager \<Rightarrow> ProxyObject \<Rightarrow> error + ProxyManager" where
  "proxies_add sizeof r self proxy =
     (case r of
        Disk \<Rightarrow> map_sum id (\<lambda>p. self\<lparr>disk := p\<rparr>) (ProxiesOnHost_add (disk self) proxy)
      | Host \<Rightarrow> map_sum id (\<lambda>p. self\<lparr>host := p\<rparr>) (ProxiesOnHost_add (host self) proxy)
      | Dev \<Rightarrow> map_sum id (\<lambda>p. self\<lparr>dev := p\<rparr>) (ProxiesOnDevice_add sizeof (dev self) proxy))"

definition proxies_remove ::
  "(nat \<Rightarrow> int) \<Rightarrow> proxies_ref \<Rightarrow> ProxyManager \<Rightarrow> ProxyObject \<Rightarrow>
   error + ProxyManager \<times> warning list" where
  "proxies_remove sizeof r self proxy =
     (case r of
        Disk \<Rightarrow> map_sum id (apfst (\<lambda>p. self\<lparr>disk := p\<rparr>)) (ProxiesOnHost_remove (disk self) proxy)
      | Host \<Rightarrow> map_sum id (apfst (\<lambda>p. self\<lparr>host := p\<rparr>)) (ProxiesOnHost_remove (host self) proxy)
      | Dev \<Rightarrow> map_sum id (apfst (\<lambda>p. self\<lparr>dev := p\<rparr>))
                 (ProxiesOnDevice_remove sizeof (dev self) proxy))"

definition ProxyManager_add ::
  "(nat \<Rightarrow> int) \<Rightarrow> ProxyManager \<Rightarrow> ProxyObject \<Rightarrow> string option \<Rightarrow>
   error + ProxyManager \<times> warning list" where
  "ProxyManager_add sizeof self proxy serializer' =
     (let old_proxies = get_proxies_by_proxy_object self proxy;
          new_proxies = get_proxies_by_serializer serializer'
      in if old_proxies \<noteq> Some new_proxies then
           (case (case old_proxies of
                    None \<Rightarrow> Inr (self, [])
                  | Some old \<Rightarrow> proxies_remove sizeof old self proxy) of
              Inl e \<Rightarrow> Inl e
            | Inr (self', ws) \<Rightarrow>
                map_sum id (\<lambda>s. (s, ws)) (proxies_add sizeof new_proxies self' proxy))
         else Inr (self, []))"

text \<open>
  \<^verbatim>\<open>ProxyManager.remove\<close>: three independent \<^verbatim>\<open>if\<close>s, the second and third asserting
  that no earlier one has matched, then the final assertion.
\<close>

definition ProxyManager_remove ::
  "(nat \<Rightarrow> int) \<Rightarrow> ProxyManager \<Rightarrow> ProxyObject \<Rightarrow> error + ProxyManager \<times> warning list" where
  "ProxyManager_remove sizeof self proxy =
     (let proxies0 = (if contains_proxy_id (disk self) (pxy_id proxy) then Some Disk else None) in
      if contains_proxy_id (host self) (pxy_id proxy) \<and> proxies0 \<noteq> None
      then Inl (AssertionError ''Proxy in multiple locations'')
      else
        let proxies1 = (if contains_proxy_id (host self) (pxy_id proxy) then Some Host
                        else proxies0) in
        if contains_proxy_id (dev self) (pxy_id proxy) \<and> proxies1 \<noteq> None
        then Inl (AssertionError ''Proxy in multiple locations'')
        else
          let proxies2 = (if contains_proxy_id (dev self) (pxy_id proxy) then Some Dev
                          else proxies1) in
          case proxies2 of
            None \<Rightarrow> Inl (AssertionError ''Trying to remove unknown proxy'')
          | Some r \<Rightarrow> proxies_remove sizeof r self proxy)"

definition proxies_contains :: "ProxyManager \<Rightarrow> proxies_ref \<Rightarrow> nat \<Rightarrow> bool" where
  "proxies_contains self r proxy_id =
     (case r of Disk \<Rightarrow> contains_proxy_id (disk self) proxy_id
              | Host \<Rightarrow> contains_proxy_id (host self) proxy_id
              | Dev \<Rightarrow> contains_proxy_id (dev self) proxy_id)"

definition cuda_proxy :: "nat \<Rightarrow> nat list \<Rightarrow> real \<Rightarrow> ProxyObject" where
  "cuda_proxy i bufs t =
     \<lparr>pxy_id = i, pxy_sizeof = 0, pxy_get_device_memory_objects = bufs, last_access = t,
      serializer = None\<rparr>"

definition host_proxy :: "nat \<Rightarrow> int \<Rightarrow> real \<Rightarrow> ProxyObject" where
  "host_proxy i n t =
     \<lparr>pxy_id = i, pxy_sizeof = n, pxy_get_device_memory_objects = [], last_access = t,
      serializer = Some ''dask''\<rparr>"

type_synonym access_entry = "real \<times> int \<times> ProxyObject list"

definition access_key :: "access_entry \<Rightarrow> real \<times> int" where
  "access_key x = (fst x, - fst (snd x))"

definition sort_access :: "access_entry list \<Rightarrow> access_entry list" where
  "sort_access access = sort_key access_key access"

fun evict_loop ::
  "int \<Rightarrow> access_entry list \<Rightarrow> ProxyObject list \<Rightarrow> int \<Rightarrow> ProxyObject list \<times> int" where
  "evict_loop nbytes [] proxies_to_serialize freed_memory = (proxies_to_serialize, freed_memory)"
| "evict_loop nbytes ((_, size', proxies) # rest) proxies_to_serialize freed_memory =
     (let proxies_to_serialize' = proxies_to_serialize @ proxies;
          freed_memory' = freed_memory + size'
      in if freed_memory' \<ge> nbytes then (proxies_to_serialize', freed_memory')
         else evict_loop nbytes rest proxies_to_serialize' freed_memory')"

fun serialize_loop ::
  "(ProxyObject \<Rightarrow> 'w \<Rightarrow> error + 'w) \<Rightarrow> ProxyObject list \<Rightarrow> nat list \<Rightarrow> 'w \<Rightarrow> error + 'w" where
  "serialize_loop serializer' [] serialized_proxies w = Inr w"
| "serialize_loop serializer' (p # ps) serialized_proxies w =
     (if pxy_id p \<notin> set serialized_proxies then
        (case serializer' p w of
           Inl e \<Rightarrow> Inl e
         | Inr w' \<Rightarrow> serialize_loop serializer' ps (set_add (pxy_id p) serialized_proxies) w')
      else serialize_loop serializer' ps serialized_proxies w)"

definition evict ::
  "int \<Rightarrow> ('w \<Rightarrow> error + access_entry list) \<Rightarrow> (ProxyObject \<Rightarrow> 'w \<Rightarrow> error + 'w) \<Rightarrow> 'w \<Rightarrow>
   error + 'w \<times> int" where
  "evict nbytes proxies_access serializer' w =
     (case proxies_access w of
        Inl e \<Rightarrow> Inl e
      | Inr access \<Rightarrow>
          (case evict_loop nbytes (sort_access access) [] 0 of
             (proxies_to_serialize, freed_memory) \<Rightarrow>
               map_sum id (\<lambda>w'. (w', freed_memory))
                 (serialize_loop serializer' proxies_to_serialize [] w)))"

text \<open>Specification-side notions for the eviction claims.\<close>

fun call_each :: "(ProxyObject \<Rightarrow> 'w \<Rightarrow> error + 'w) \<Rightarrow> ProxyObject list \<Rightarrow> 'w \<Rightarrow> error + 'w" where
  "call_each f [] w = Inr w"
| "call_each f (p # ps) w = (case f p w of Inl e \<Rightarrow> Inl e | Inr w' \<Rightarrow> call_each f ps w')"

fun first_by_id :: "nat set \<Rightarrow> ProxyObject list \<Rightarrow> ProxyObject list" where
  "first_by_id seen [] = []"
| "first_by_id seen (p # ps) =
     (if pxy_id p \<in> seen then first_by_id seen ps else p # first_by_id (insert (pxy_id p) seen) ps)"

definition manager_with_host_proxy :: ProxyManager where
  "manager_with_host_proxy =
     \<lparr>disk = Proxies_init, host = \<lparr>proxy_id_to_proxy = [(1, 1)], mem_usage = 10\<rparr>,
      dev = ProxiesOnDevice_init, device_memory_limit = 100, host_memory_limit = 100\<rparr>"

definition manager_with_duplicate :: ProxyManager where
  "manager_with_duplicate =
     \<lparr>disk = \<lparr>proxy_id_to_proxy = [(1, 1)], mem_usage = 10\<rparr>,
      host = \<lparr>proxy_id_to_proxy = [(1, 1)], mem_usage = 10\<rparr>,
      dev = ProxiesOnDevice_init, device_memory_limit = 100, host_memory_limit = 100\<rparr>"

definition access_by_time :: "access_entry list" where
  "access_by_time =
     [(3, 40, [cuda_proxy 3 [30] 3]), (1, 40, [cuda_proxy 1 [10] 1]), (2, 40, [cuda_proxy 2 [20] 2])]"

definition access_tied :: "access_entry list" where
  "access_tied =
     [(1, 5, [cuda_proxy 1 [10] 1]), (1, 9, [cuda_proxy 2 [20] 1, cuda_proxy 1 [10] 1])]"

definition record_call :: "ProxyObject \<Rightarrow> nat list \<Rightarrow> error + nat list" where
  "record_call p calls = Inr (calls @ [pxy_id p])"

text \<open>
  \<^verbatim>\<open>Proxies.get_proxies\<close>: the weak references are resolved through \<open>deref\<close> (the live
  objects by address; \<open>None\<close> once an object is gone) in dictionary order, dead ones
  skipped.
\<close>

definition get_proxies :: "(nat \<Rightarrow> ProxyObject option) \<Rightarrow> 'a Proxies_scheme \<Rightarrow> ProxyObject list" where
  "get_proxies deref self = List.map_filter (\<lambda>(i, p). deref p) (proxy_id_to_proxy self)"

text \<open>
  \<^verbatim>\<open>ProxyManager.get_dev_access_info\<close>: the two nested loops that fill
  \<^verbatim>\<open>buffer_to_proxies\<close> (a \<^verbatim>\<open>defaultdict(list)\<close>), then the loop over its items.
  \<^verbatim>\<open>max\<close> raises \<^verbatim>\<open>ValueError\<close> on an empty sequence.
\<close>

fun buffer_to_proxies_inner ::
  "ProxyObject \<Rightarrow> nat list \<Rightarrow> (nat \<times> ProxyObject list) list \<Rightarrow> (nat \<times> ProxyObject list) list" where
  "buffer_to_proxies_inner proxy [] buffer_to_proxies = buffer_to_proxies"
| "buffer_to_proxies_inner proxy (buffer # rest) buffer_to_proxies =
     buffer_to_proxies_inner proxy rest
       (AList.update buffer (dict_get_default buffer_to_proxies buffer @ [proxy])
          buffer_to_proxies)"

fun buffer_to_proxies_loop ::
  "ProxyObject list \<Rightarrow> (nat \<times> ProxyObject list) list \<Rightarrow> (nat \<times> ProxyObject list) list" where
  "buffer_to_proxies_loop [] buffer_to_proxies = buffer_to_proxies"
| "buffer_to_proxies_loop (proxy # rest) buffer_to_proxies =
     buffer_to_proxies_loop rest
       (buffer_to_proxies_inner proxy (pxy_get_device_memory_objects proxy) buffer_to_proxies)"

fun py_max :: "real list \<Rightarrow> error + real" where
  "py_max [] = Inl ValueError"
| "py_max (x # xs) = Inr (fold max xs x)"

fun dev_access_entries ::
  "(nat \<Rightarrow> int) \<Rightarrow> (nat \<times> ProxyObject list) list \<Rightarrow> error + access_entry list" where
  "dev_access_entries sizeof [] = Inr []"
| "dev_access_entries sizeof ((dev_buf, proxies) # rest) =
     (case py_max (map last_access proxies) of
        Inl e \<Rightarrow> Inl e
      | Inr last_access' \<Rightarrow>
          (case dev_access_entries sizeof rest of
             Inl e \<Rightarrow> Inl e
           | Inr ret \<Rightarrow> Inr ((last_access', sizeof dev_buf, proxies) # ret)))"

definition get_dev_access_info ::
  "(nat \<Rightarrow> int) \<Rightarrow> (nat \<Rightarrow> ProxyObject option) \<Rightarrow> ProxyManager \<Rightarrow> error + access_entry list" where
  "get_dev_access_info sizeof deref self =
     dev_access_entries sizeof (buffer_to_proxies_loop (get_proxies deref (dev self)) [])"

definition get_host_access_info ::
  "(nat \<Rightarrow> ProxyObject option) \<Rightarrow> ProxyManager \<Rightarrow> error + access_entry list" where
  "get_host_access_info deref self =
     Inr (map (\<lambda>p. (last_access p, pxy_sizeof p, [p])) (get_proxies deref (host self)))"

text \<open>The proxies appended for a buffer: one per occurrence of the buffer, in proxy order.\<close>

definition appended_for :: "nat \<Rightarrow> ProxyObject list \<Rightarrow> ProxyObject list" where
  "appended_for b ps =
     concat (map (\<lambda>p. map (\<lambda>_. p) (filter (\<lambda>b'. b' = b) (pxy_get_device_memory_objects p))) ps)"

text \<open>
  What the manager's eviction methods read and change: the manager itself and the proxy
  objects (by address).  The demotion callbacks belong to \<^verbatim>\<open>ProxyObject\<close> and to the disk
  serializer; they are parameters: \<open>pxy_serialize serializers proxy\<close> stands for
  \<^verbatim>\<open>proxy._pxy_serialize(serializers=...)\<close> and \<open>serialize_proxy_to_disk_inplace\<close> for the
  class method of that name.
\<close>

record world =
  manager :: ProxyManager
  objects :: "nat \<Rightarrow> ProxyObject option"

definition maybe_evict_from_device ::
  "(nat \<Rightarrow> int) \<Rightarrow> (string list \<Rightarrow> ProxyObject \<Rightarrow> 'a world_scheme \<Rightarrow> error + 'a world_scheme) \<Rightarrow>
   int \<Rightarrow> 'a world_scheme \<Rightarrow> error + 'a world_scheme" where
  "maybe_evict_from_device sizeof pxy_serialize extra_dev_mem w =
     (let mem_over_usage =
            mem_usage (dev (manager w)) + extra_dev_mem - device_memory_limit (manager w)
      in if mem_over_usage > 0 then
           map_sum id fst
             (evict mem_over_usage
                (\<lambda>w. get_dev_access_info sizeof (objects w) (manager w))
                (pxy_serialize [''dask'', ''pickle'']) w)
         else Inr w)"

definition maybe_evict_from_host ::
  "(ProxyObject \<Rightarrow> 'a world_scheme \<Rightarrow> error + 'a world_scheme) \<Rightarrow>
   int \<Rightarrow> 'a world_scheme \<Rightarrow> error + 'a world_scheme" where
  "maybe_evict_from_host serialize_proxy_to_disk_inplace extra_host_mem w =
     (let mem_over_usage =
            mem_usage (host (manager w)) + extra_host_mem - host_memory_limit (manager w)
      in if mem_over_usage > 0 then
           map_sum id fst
             (evict mem_over_usage
                (\<lambda>w. get_host_access_info (objects w) (manager w))
                serialize_proxy_to_disk_inplace w)
         else Inr w)"

definition maybe_evict ::
  "(nat \<Rightarrow> int) \<Rightarrow> (string list \<Rightarrow> ProxyObject \<Rightarrow> 'a world_scheme \<Rightarrow> error + 'a world_scheme) \<Rightarrow>
   (ProxyObject \<Rightarrow> 'a world_scheme \<Rightarrow> error + 'a world_scheme) \<Rightarrow>
   int \<Rightarrow> 'a world_scheme \<Rightarrow> error + 'a world_scheme" where
  "maybe_evict sizeof pxy_serialize serialize_proxy_to_disk_inplace extra_dev_mem w =
     (case maybe_evict_from_device sizeof pxy_serialize extra_dev_mem w of
        Inl e \<Rightarrow> Inl e
      | Inr w' \<Rightarrow> maybe_evict_from_host serialize_proxy_to_disk_inplace 0 w')"

text \<open>Example states and collaborators used to exercise the theorems.\<close>

definition manager_with_aliases :: ProxyManager where
  "manager_with_aliases =
     \<lparr>disk = Proxies_init, host = Proxies_init,
      dev = \<lparr>proxy_id_to_proxy = [(1, 1), (2, 2), (3, 3)], mem_usage = 80,
             proxy_id_to_dev_mems = [(1, [7]), (2, [7, 8]), (3, [])],
             dev_mem_to_proxy_ids = [(7, [1, 2]), (8, [2])]\<rparr>,
      device_memory_limit = 100, host_memory_limit = 100\<rparr>"

definition objects_with_aliases :: "nat \<Rightarrow> ProxyObject option" where
  "objects_with_aliases i =
     (if i = 1 then Some (cuda_proxy 1 [7] 1)
      else if i = 2 then Some (cuda_proxy 2 [7, 8] 5)
      else None)"

definition sizeof_example :: "nat \<Rightarrow> int" where
  "sizeof_example b = (if b = 7 then 50 else 30)"

definition example_pxy_serialize ::
  "(nat \<Rightarrow> int) \<Rightarrow> string list \<Rightarrow> ProxyObject \<Rightarrow> world \<Rightarrow> error + world" where
  \<comment> \<open>a demotion that retags the proxy with the first serializer and re-registers it\<close>
  "example_pxy_serialize sizeof serializers p w =
     (let p' = p\<lparr>serializer := (case serializers of [] \<Rightarrow> None | s # _ \<Rightarrow> Some s),
                  pxy_get_device_memory_objects := []\<rparr>
      in case ProxyManager_add sizeof (manager w) p' (serializer p') of
           Inl e \<Rightarrow> Inl e
         | Inr (m, ws) \<Rightarrow> Inr (w\<lparr>manager := m, objects := (objects w)(pxy_id p := Some p')\<rparr>))"

definition three_buffers_world :: world where
  "three_buffers_world =
     \<lparr>manager =
        \<lparr>disk = Proxies_init, host = Proxies_init,
         dev = \<lparr>proxy_id_to_proxy = [(1, 1), (2, 2), (3, 3)], mem_usage = 120,
                proxy_id_to_dev_mems = [(1, [10]), (2, [20]), (3, [30])],
                dev_mem_to_proxy_ids = [(10, [1]), (20, [2]), (30, [3])]\<rparr>,
         device_memory_limit = 100, host_memory_limit = 1000\<rparr>,
      objects = (\<lambda>i. if i = 1 then Some ((cuda_proxy 1 [10] 1)\<lparr>pxy_sizeof := 40\<rparr>)
                     else if i = 2 then Some ((cuda_proxy 2 [20] 2)\<lparr>pxy_sizeof := 40\<rparr>)
                     else if i = 3 then Some ((cuda_proxy 3 [30] 3)\<lparr>pxy_sizeof := 40\<rparr>)
                     else None)\<rparr>"

definition usage_summary :: "world \<Rightarrow> int \<times> nat list \<times> int \<times> nat list \<times> int" where
  \<comment> \<open>device tally and identities, host tally and identities, host limit\<close>
  "usage_summary w =
     (mem_usage (dev (manager w)), map fst (proxy_id_to_proxy (dev (manager w))),
      mem_usage (host (manager w)), map fst (proxy_id_to_proxy (host (manager w))),
      host_memory_limit (manager w))"

text \<open>
  Sequences of \<^verbatim>\<open>add\<close> and \<^verbatim>\<open>remove\<close> calls on a \<^verbatim>\<open>ProxiesOnDevice\<close>; an exception ends
  the run.
\<close>

datatype registry_op = Add ProxyObject | Remove ProxyObject

fun run_ops ::
  "(nat \<Rightarrow> int) \<Rightarrow> registry_op list \<Rightarrow> ProxiesOnDevice \<Rightarrow> error + ProxiesOnDevice" where
  "run_ops sizeof [] self = Inr self"
| "run_ops sizeof (Add proxy # ops) self =
     (case ProxiesOnDevice_add sizeof self proxy of
        Inl e \<Rightarrow> Inl e
      | Inr self' \<Rightarrow> run_ops sizeof ops self')"
| "run_ops sizeof (Remove proxy # ops) self =
     (case ProxiesOnDevice_remove sizeof self proxy of
        Inl e \<Rightarrow> Inl e
      | Inr (self', ws) \<Rightarrow> run_ops sizeof ops self')"

text \<open>
  The device memory objects the registry has recorded for a proxy identity, and those
  recorded for any tracked proxy.
\<close>

definition dev_mems_of :: "ProxiesOnDevice \<Rightarrow> nat \<Rightarrow> nat set" where
  "dev_mems_of self proxy_id = set (dict_get_default (proxy_id_to_dev_mems self) proxy_id)"

definition referenced :: "ProxiesOnDevice \<Rightarrow> nat set" where
  "referenced self = (\<Union>i \<in> set (map fst (proxy_id_to_proxy self)). dev_mems_of self i)"

text \<open>
  The invariant of the two alias dictionaries and the tally; \<open>pending\<close> are the buffers
  of proxy \<open>pid\<close> that \<^verbatim>\<open>mem_usage_remove\<close> has still to visit.
\<close>

definition alias_inv :: "(nat \<Rightarrow> int) \<Rightarrow> nat list \<Rightarrow> nat \<Rightarrow> ProxiesOnDevice \<Rightarrow> bool" where
  "alias_inv sizeof pending pid self \<longleftrightarrow>
     (\<forall>q. distinct (dict_get_default (proxy_id_to_dev_mems self) q))
     \<and> (\<forall>b. set (dict_get_default (dev_mem_to_proxy_ids self) b)
            = {q. b \<in> set (dict_get_default (proxy_id_to_dev_mems self) q)}
              \<union> (if b \<in> set pending then {pid} else {}))
     \<and> set (map fst (dev_mem_to_proxy_ids self))
         = {b. dict_get_default (dev_mem_to_proxy_ids self) b \<noteq> []}
     \<and> mem_usage self = (\<Sum>b \<in> set (map fst (dev_mem_to_proxy_ids self)). sizeof b)"

definition registry_inv :: "(nat \<Rightarrow> int) \<Rightarrow> ProxiesOnDevice \<Rightarrow> bool" where
  "registry_inv sizeof self \<longleftrightarrow>
     set (map fst (proxy_id_to_dev_mems self)) = set (map fst (proxy_id_to_proxy self))
     \<and> alias_inv sizeof [] 0 self"

definition registry_with_aliases :: ProxiesOnDevice where
  "registry_with_aliases =
     \<lparr>proxy_id_to_proxy = [(1, 1), (2, 2)], mem_usage = 80,
      proxy_id_to_dev_mems = [(1, [7]), (2, [7, 8])],
      dev_mem_to_proxy_ids = [(7, [1, 2]), (8, [2])]\<rparr>"

text \<open>
  \<^verbatim>\<open>ProxyManager.proxify\<close>.  The walk \<^verbatim>\<open>proxify_device_objects\<close> is a parameter: it returns
  the proxied object, the proxies it found and the state with the proxy objects it
  created; \<open>now\<close> is the value of \<^verbatim>\<open>time.monotonic()\<close>.  A proxy reaches
  \<^verbatim>\<open>self.add\<close> only when no registry tracks it, so that call cannot warn.
\<close>

fun proxify_loop ::
  "(nat \<Rightarrow> int) \<Rightarrow> real \<Rightarrow> ProxyObject list \<Rightarrow> 'a world_scheme \<Rightarrow> error + 'a world_scheme" where
  "proxify_loop sizeof last_access' [] w = Inr w"
| "proxify_loop sizeof last_access' (p # found_proxies) w =
     (let p' = p\<lparr>last_access := last_access'\<rparr>;
          w1 = w\<lparr>objects := (objects w)(pxy_id p := Some p')\<rparr>
      in if \<not> ProxyManager_contains (manager w1) (pxy_id p) then
           (case ProxyManager_add sizeof (manager w1) p' (serializer p') of
              Inl e \<Rightarrow> Inl e
            | Inr (m, ws) \<Rightarrow> proxify_loop sizeof last_access' found_proxies (w1\<lparr>manager := m\<rparr>))
         else proxify_loop sizeof last_access' found_proxies w1)"

definition proxify ::
  "(nat \<Rightarrow> int) \<Rightarrow> ('v \<Rightarrow> 'a world_scheme \<Rightarrow> 'v \<times> ProxyObject list \<times> 'a world_scheme) \<Rightarrow> real \<Rightarrow>
   (string list \<Rightarrow> ProxyObject \<Rightarrow> 'a world_scheme \<Rightarrow> error + 'a world_scheme) \<Rightarrow>
   (ProxyObject \<Rightarrow> 'a world_scheme \<Rightarrow> error + 'a world_scheme) \<Rightarrow>
   'v \<Rightarrow> 'a world_scheme \<Rightarrow> error + 'v \<times> 'a world_scheme" where
  "proxify sizeof proxify_device_objects now pxy_serialize serialize_proxy_to_disk_inplace obj w =
     (case proxify_device_objects obj w of
        (ret, found_proxies, w0) \<Rightarrow>
          (case proxify_loop sizeof now found_proxies w0 of
             Inl e \<Rightarrow> Inl e
           | Inr w1 \<Rightarrow>
               map_sum id (\<lambda>w2. (ret, w2))
                 (maybe_evict sizeof pxy_serialize serialize_proxy_to_disk_inplace 0 w1)))"

subsection \<open>\<^verbatim>\<open>ProxifyHostFile\<close>\<close>

text \<open>
  The host file: its manager and the proxy objects, the \<^verbatim>\<open>store\<close> dictionary and the two
  flags.  \<^verbatim>\<open>initialize_spill_on_demand_once\<close> flips the flag from \<^verbatim>\<open>False\<close> to \<^verbatim>\<open>True\<close>;
  what it registers with the RMM allocator is outside this state.
\<close>

record 'v ProxifyHostFile = world +
  store :: "(nat \<times> 'v) list"
  spill_on_demand_initialized :: "bool option"
  compatibility_mode :: bool

definition initialize_spill_on_demand_once :: "'v ProxifyHostFile \<Rightarrow> 'v ProxifyHostFile" where
  "initialize_spill_on_demand_once self =
     (if spill_on_demand_initialized self = Some False
      then self\<lparr>spill_on_demand_initialized := Some True\<rparr> else self)"

text \<open>
  Modelled from the spec: the finalisation of the proxy handles that a stored value owns,
  run when the store drops the value.  The finaliser of a proxy handle belongs to
  \<^verbatim>\<open>ProxyObject\<close> in \<^verbatim>\<open>proxy_object.py\<close>, which is not part of this file.  The spec:
  proxies "are owned by the caller's data structures"; a handle carries "a back-reference
  to the Tier Manager that owns it"; a tracked proxy is "removed from tracking when the
  owning container deletes the key"; an insert on an existing key is to "remove old tracked
  proxies for the superseded value first".  So a handle that dies calls \<^verbatim>\<open>remove\<close> on its
  manager when the manager tracks it, and from then on its weak references resolve to
  nothing.  The list holds the identities of the handles that the dropped value owns.
\<close>

fun finalize_proxies ::
  "(nat \<Rightarrow> int) \<Rightarrow> nat list \<Rightarrow> 'a world_scheme \<Rightarrow> warning list \<Rightarrow>
   error + 'a world_scheme \<times> warning list" where
  "finalize_proxies sizeof [] w ws = Inr (w, ws)"
| "finalize_proxies sizeof (i # rest) w ws =
     (case objects w i of
        None \<Rightarrow> finalize_proxies sizeof rest w ws
      | Some p \<Rightarrow>
          if ProxyManager_contains (manager w) (pxy_id p) then
            (case ProxyManager_remove sizeof (manager w) p of
               Inl e \<Rightarrow> Inl e
             | Inr (m, ws') \<Rightarrow>
                 finalize_proxies sizeof rest
                   (w\<lparr>manager := m, objects := (objects w)(i := None)\<rparr>) (ws @ ws'))
          else finalize_proxies sizeof rest (w\<lparr>objects := (objects w)(i := None)\<rparr>) ws)"

text \<open>
  \<^verbatim>\<open>__delitem__\<close>: \<^verbatim>\<open>del self.store[key]\<close> raises \<^verbatim>\<open>KeyError\<close> for an absent key and
  otherwise drops the entry, and with it the value and the handles the value owns
  (\<open>owned_proxies\<close>, a parameter).
\<close>

definition delitem ::
  "(nat \<Rightarrow> int) \<Rightarrow> ('v \<Rightarrow> nat list) \<Rightarrow> nat \<Rightarrow> 'v ProxifyHostFile \<Rightarrow>
   error + 'v ProxifyHostFile \<times> warning list" where
  "delitem sizeof owned_proxies key self =
     (case map_of (store self) key of
        None \<Rightarrow> Inl KeyError
      | Some value \<Rightarrow>
          finalize_proxies sizeof (owned_proxies value)
            (self\<lparr>store := AList.delete key (store self)\<rparr>) [])"

definition setitem ::
  "(nat \<Rightarrow> int) \<Rightarrow> ('v \<Rightarrow> nat list) \<Rightarrow>
   ('v \<Rightarrow> 'v ProxifyHostFile \<Rightarrow> 'v \<times> ProxyObject list \<times> 'v ProxifyHostFile) \<Rightarrow>
   real \<Rightarrow> (string list \<Rightarrow> ProxyObject \<Rightarrow> 'v ProxifyHostFile \<Rightarrow> error + 'v ProxifyHostFile) \<Rightarrow>
   (ProxyObject \<Rightarrow> 'v ProxifyHostFile \<Rightarrow> error + 'v ProxifyHostFile) \<Rightarrow>
   nat \<Rightarrow> 'v \<Rightarrow> 'v ProxifyHostFile \<Rightarrow> error + 'v ProxifyHostFile \<times> warning list" where
  "setitem sizeof owned_proxies proxify_device_objects now pxy_serialize
     serialize_proxy_to_disk_inplace key value self =
     (let self1 = initialize_spill_on_demand_once self in
      case (if key \<in> set (map fst (store self1))
            then delitem sizeof owned_proxies key self1 else Inr (self1, [])) of
        Inl e \<Rightarrow> Inl e
      | Inr (self2, ws) \<Rightarrow>
          (case proxify sizeof proxify_device_objects now pxy_serialize
                  serialize_proxy_to_disk_inplace value self2 of
             Inl e \<Rightarrow> Inl e
           | Inr (ret, self3) \<Rightarrow>
               Inr (self3\<lparr>store := AList.update key ret (store self3)\<rparr>, ws)))"




text \<open>Example host file: the value 0 holds one device object, every other value none.\<close>

definition example_proxify_device_objects ::
  "nat \<Rightarrow> nat ProxifyHostFile \<Rightarrow> nat \<times> ProxyObject list \<times> nat ProxifyHostFile" where
  "example_proxify_device_objects obj w =
     (obj, if obj = 0 then [cuda_proxy 1 [10] 0] else [], w)"

definition example_owned_proxies :: "nat \<Rightarrow> nat list" where
  "example_owned_proxies obj = (if obj = 0 then [1] else [])"

definition keep_pxy_serialize ::
  "string list \<Rightarrow> ProxyObject \<Rightarrow> nat ProxifyHostFile \<Rightarrow> error + nat ProxifyHostFile" where
  "keep_pxy_serialize serializers p w = Inr w"

definition keep_to_disk ::
  "ProxyObject \<Rightarrow> nat ProxifyHostFile \<Rightarrow> error + nat ProxifyHostFile" where
  "keep_to_disk p w = Inr w"

definition empty_host_file :: "nat ProxifyHostFile" where
  "empty_host_file =
     \<lparr>manager = ProxyManager_init 100 100, objects = (\<lambda>_. None), store = [],
      spill_on_demand_initialized = None, compatibility_mode = False\<rparr>"

definition host_file_with_key :: "nat ProxifyHostFile" where
  "host_file_with_key =
     \<lparr>manager =
        \<lparr>disk = Proxies_init, host = Proxies_init,
         dev = \<lparr>proxy_id_to_proxy = [(1, 1)], mem_usage = 30,
                proxy_id_to_dev_mems = [(1, [10])], dev_mem_to_proxy_ids = [(10, [1])]\<rparr>,
         device_memory_limit = 100, host_memory_limit = 100\<rparr>,
      objects = (\<lambda>_. None)(1 := Some (cuda_proxy 1 [10] 1)), store = [(5, 0)],
      spill_on_demand_initialized = None, compatibility_mode = False\<rparr>"


section \<open>Verification\<close>

lemma dict_get_default_update:
  "dict_get_default (AList.update k v al) k' = (if k' = k then v else dict_get_default al k')"
  by (simp add: dict_get_default_def update_conv')

lemma dict_get_default_delete:
  "dict_get_default (AList.delete k al) k' = (if k' = k then [] else dict_get_default al k')"
  by (simp add: dict_get_default_def delete_conv')

lemma keys_update: "set (map fst (AList.update k v al)) = insert k (set (map fst al))"
  using dom_update [of k v al] by simp

lemma keys_delete: "set (map fst (AList.delete k al)) = set (map fst al) - {k}"
  by (simp add: delete_keys)

lemma dict_get_default_notin: "k \<notin> set (map fst al) \<Longrightarrow> dict_get_default al k = []"
  using map_of_eq_None_iff [of al k] by (simp add: dict_get_default_def)

lemma set_set_add: "set (set_add x xs) = insert x (set xs)"
  by (auto simp: set_add_def)

lemma distinct_set_add: "distinct xs \<Longrightarrow> distinct (set_add x xs)"
  by (simp add: set_add_def)

lemma set_add_nonempty: "set_add x xs \<noteq> []"
  by (auto simp: set_add_def)

lemma add_loop_tracked:
  "mem_usage_add_loop sz pid bs s = Inr s' \<Longrightarrow> proxy_id_to_proxy s' = proxy_id_to_proxy s"
  by (induction bs arbitrary: s) (auto simp: Let_def split: option.splits if_splits)

lemma add_loop_total:
  "pid \<in> set (map fst (proxy_id_to_dev_mems s)) \<Longrightarrow> \<exists>s'. mem_usage_add_loop sz pid bs s = Inr s'"
proof (induction bs arbitrary: s)
  case Nil
  then show ?case by simp
next
  case (Cons b bs)
  from Cons.prems obtain ms where ms: "map_of (proxy_id_to_dev_mems s) pid = Some ms"
    by (metis map_of_eq_None_iff not_Some_eq set_map)
  show ?case
    using ms by (auto simp: Let_def keys_update intro!: Cons.IH simp del: set_map)
qed

lemma add_loop_tally:
  "mem_usage_add_loop sz pid bs s = Inr s' \<Longrightarrow>
   mem_usage s' = mem_usage s +
     (\<Sum>b \<in> {b \<in> set bs. dict_get_default (dev_mem_to_proxy_ids s) b = []}. sz b)"
proof (induction bs arbitrary: s)
  case Nil
  then show ?case by simp
next
  case (Cons b bs)
  let ?D = "dev_mem_to_proxy_ids s"
  from Cons.prems obtain ms where ms: "map_of (proxy_id_to_dev_mems s) pid = Some ms"
    by (auto split: option.splits)
  define s1 where "s1 = s\<lparr>proxy_id_to_dev_mems := AList.update pid (set_add b ms) (proxy_id_to_dev_mems s)\<rparr>"
  define s3 where "s3 = (if dict_get_default ?D b = [] then s1\<lparr>mem_usage := mem_usage s1 + sz b\<rparr> else s1)
     \<lparr>dev_mem_to_proxy_ids := AList.update b (set_add pid (dict_get_default ?D b)) ?D\<rparr>"
  have step: "mem_usage_add_loop sz pid bs s3 = Inr s'"
    using Cons.prems ms by (auto simp: Let_def s3_def s1_def split: if_splits)
  have D3: "dev_mem_to_proxy_ids s3 = AList.update b (set_add pid (dict_get_default ?D b)) ?D"
    by (simp add: s3_def s1_def)
  have m3: "mem_usage s3 = mem_usage s + (if dict_get_default ?D b = [] then sz b else 0)"
    by (simp add: s3_def s1_def)
  have sets: "{b' \<in> set bs. dict_get_default (dev_mem_to_proxy_ids s3) b' = []}
            = {b' \<in> set bs. dict_get_default ?D b' = []} - {b}"
    by (auto simp: D3 dict_get_default_update set_add_nonempty)
  have fin: "finite {b' \<in> set bs. dict_get_default ?D b' = []}" by simp
  let ?A = "{b' \<in> set bs. dict_get_default ?D b' = []}"
  have eq: "{b' \<in> set (b # bs). dict_get_default ?D b' = []}
      = (if dict_get_default ?D b = [] then insert b ?A else ?A - {b})"
    by auto
  have "sum sz {b' \<in> set (b # bs). dict_get_default ?D b' = []}
      = (if dict_get_default ?D b = [] then sz b else 0) + sum sz (?A - {b})"
    unfolding eq using fin by (simp add: sum.insert_remove)
  then show ?case
    using Cons.IH [OF step] by (simp add: m3 sets)
qed

lemma remove_loop_tracked:
  "mem_usage_remove_loop sz pid bs s = Inr s' \<Longrightarrow> proxy_id_to_proxy s' = proxy_id_to_proxy s"
  by (induction bs arbitrary: s) (auto simp: Let_def split: if_splits)

lemma contains_update:
  "contains_proxy_id (s\<lparr>proxy_id_to_proxy := AList.update k v (proxy_id_to_proxy s)\<rparr>) i
     \<longleftrightarrow> i = k \<or> contains_proxy_id s i"
  using keys_update [of k v "proxy_id_to_proxy s"] by (auto simp: contains_proxy_id_def)

lemma contains_delete:
  "contains_proxy_id (s\<lparr>proxy_id_to_proxy := AList.delete k (proxy_id_to_proxy s)\<rparr>) i
     \<longleftrightarrow> i \<noteq> k \<and> contains_proxy_id s i"
  using keys_delete [of k "proxy_id_to_proxy s"] by (auto simp: contains_proxy_id_def)

lemma contains_mem_usage_update [simp]:
  "contains_proxy_id (s\<lparr>mem_usage := u\<rparr>) i = contains_proxy_id s i"
  by (simp add: contains_proxy_id_def)

lemma ProxiesOnHost_add_contains:
  assumes "ProxiesOnHost_add s p = Inr s'"
  shows "contains_proxy_id s' i \<longleftrightarrow> i = pxy_id p \<or> contains_proxy_id s i"
proof -
  let ?s0 = "s\<lparr>proxy_id_to_proxy := AList.update (pxy_id p) (pxy_id p) (proxy_id_to_proxy s)\<rparr>"
  from assms have "s' = ?s0\<lparr>mem_usage := mem_usage ?s0 + pxy_sizeof p\<rparr>"
    by (auto simp: ProxiesOnHost_add_def Proxies_add_def ProxiesOnHost_mem_usage_add_def
        split: if_splits)
  then have "contains_proxy_id s' i = contains_proxy_id ?s0 i"
    by (simp only: contains_mem_usage_update)
  then show ?thesis by (simp only: contains_update)
qed

lemma ProxiesOnDevice_add_contains:
  assumes "ProxiesOnDevice_add sz s p = Inr s'"
  shows "contains_proxy_id s' i \<longleftrightarrow> i = pxy_id p \<or> contains_proxy_id s i"
proof -
  let ?s0 = "s\<lparr>proxy_id_to_proxy := AList.update (pxy_id p) (pxy_id p) (proxy_id_to_proxy s)\<rparr>"
  from assms have "ProxiesOnDevice_mem_usage_add sz p ?s0 = Inr s'"
    by (auto simp: ProxiesOnDevice_add_def Proxies_add_def split: if_splits)
  then have "proxy_id_to_proxy s' = proxy_id_to_proxy ?s0"
    by (auto simp: ProxiesOnDevice_mem_usage_add_def Let_def dest!: add_loop_tracked split: if_splits)
  then have "contains_proxy_id s' i = contains_proxy_id ?s0 i"
    by (simp add: contains_proxy_id_def)
  then show ?thesis by (simp add: contains_update)
qed



lemma ProxiesOnDevice_remove_contains:
  assumes "ProxiesOnDevice_remove sz s p = Inr (s', ws)"
  shows "contains_proxy_id s' i \<longleftrightarrow> i \<noteq> pxy_id p \<and> contains_proxy_id s i"
proof -
  let ?s0 = "s\<lparr>proxy_id_to_proxy := AList.delete (pxy_id p) (proxy_id_to_proxy s)\<rparr>"
  from assms obtain s1 where s1: "ProxiesOnDevice_mem_usage_remove sz p ?s0 = Inr s1"
    and s': "proxy_id_to_proxy s' = proxy_id_to_proxy s1"
    by (auto simp: ProxiesOnDevice_remove_def Proxies_remove_def split: if_splits sum.splits)
  from s1 have "proxy_id_to_proxy s1 = proxy_id_to_proxy ?s0"
    by (auto simp: ProxiesOnDevice_mem_usage_remove_def Let_def dest!: remove_loop_tracked
        split: option.splits)
  with s' have "contains_proxy_id s' i = contains_proxy_id ?s0 i"
    by (simp add: contains_proxy_id_def)
  then show ?thesis by (simp add: contains_delete)
qed

lemma proxies_add_contains:
  "proxies_add sz r m p = Inr m' \<Longrightarrow>
   proxies_contains m' r' i \<longleftrightarrow> (r' = r \<and> i = pxy_id p) \<or> proxies_contains m r' i"
  by (cases r; cases r')
     (auto simp: proxies_add_def proxies_contains_def map_sum_def
       ProxiesOnHost_add_contains ProxiesOnDevice_add_contains split: sum.splits)


text \<open>
  Claim C10. \<^verbatim>\<open>get_proxies_by_serializer\<close> returns the disk registry exactly for
  \<^verbatim>\<open>"disk"\<close>, the host registry exactly for \<^verbatim>\<open>"dask"\<close> and \<^verbatim>\<open>"pickle"\<close>, and the device
  registry for every other tag, \<^verbatim>\<open>None\<close> and unknown strings included.  Hence whenever
  \<^verbatim>\<open>ProxyManager.add\<close> returns for such a tag the proxy is tracked by the device registry, and
  for a proxy not tracked before the call returns, only the device registry changes, and the
  device tally grows by the sizes of the proxy's device memory objects that had no
  referencing proxy.
\<close>

theorem get_proxies_by_serializer_default_dev:
  "(get_proxies_by_serializer tag = Disk \<longleftrightarrow> tag = Some ''disk'')
   \<and> (get_proxies_by_serializer tag = Host \<longleftrightarrow> tag = Some ''dask'' \<or> tag = Some ''pickle'')
   \<and> (get_proxies_by_serializer tag = Dev \<longleftrightarrow>
        tag \<noteq> Some ''disk'' \<and> tag \<noteq> Some ''dask'' \<and> tag \<noteq> Some ''pickle'')
   \<and> (tag \<notin> {Some ''disk'', Some ''dask'', Some ''pickle''}
        \<and> ProxyManager_add sizeof m p tag = Inr (m', ws)
      \<longrightarrow> contains_proxy_id (dev m') (pxy_id p))
   \<and> (tag \<notin> {Some ''disk'', Some ''dask'', Some ''pickle''}
        \<and> \<not> ProxyManager_contains m (pxy_id p)
        \<and> pxy_id p \<notin> set (map fst (proxy_id_to_dev_mems (dev m)))
      \<longrightarrow> (\<exists>d. ProxyManager_add sizeof m p tag = Inr (m\<lparr>dev := d\<rparr>, [])
             \<and> contains_proxy_id d (pxy_id p)
             \<and> mem_usage d = mem_usage (dev m) +
                 (\<Sum>b \<in> {b \<in> set (pxy_get_device_memory_objects p).
                            dict_get_default (dev_mem_to_proxy_ids (dev m)) b = []}. sizeof b)))"
proof (intro conjI impI)
  show "get_proxies_by_serializer tag = Disk \<longleftrightarrow> tag = Some ''disk''"
    by (simp add: get_proxies_by_serializer_def)
  show "get_proxies_by_serializer tag = Host \<longleftrightarrow> tag = Some ''dask'' \<or> tag = Some ''pickle''"
    by (auto simp: get_proxies_by_serializer_def)
  show "get_proxies_by_serializer tag = Dev \<longleftrightarrow>
        tag \<noteq> Some ''disk'' \<and> tag \<noteq> Some ''dask'' \<and> tag \<noteq> Some ''pickle''"
    by (auto simp: get_proxies_by_serializer_def)
next
  assume a: "tag \<notin> {Some ''disk'', Some ''dask'', Some ''pickle''}
        \<and> ProxyManager_add sizeof m p tag = Inr (m', ws)"
  then have new: "get_proxies_by_serializer tag = Dev"
    by (auto simp: get_proxies_by_serializer_def)
  show "contains_proxy_id (dev m') (pxy_id p)"
  proof (cases "get_proxies_by_proxy_object m p = Some Dev")
    case True
    then have "m' = m" using a new by (simp add: ProxyManager_add_def)
    moreover from True have "contains_proxy_id (dev m) (pxy_id p)"
      by (auto simp: get_proxies_by_proxy_object_def Let_def split: if_splits)
    ultimately show ?thesis by simp
  next
    case False
    with a new obtain m1 where "proxies_add sizeof Dev m1 p = Inr m'"
      by (auto simp: ProxyManager_add_def Let_def map_sum_def split: sum.splits option.splits)
    from proxies_add_contains [OF this, of Dev "pxy_id p"] show ?thesis
      by (simp add: proxies_contains_def)
  qed
next
  assume a: "tag \<notin> {Some ''disk'', Some ''dask'', Some ''pickle''}
        \<and> \<not> ProxyManager_contains m (pxy_id p)
        \<and> pxy_id p \<notin> set (map fst (proxy_id_to_dev_mems (dev m)))"
  then have new: "get_proxies_by_serializer tag = Dev"
    by (auto simp: get_proxies_by_serializer_def)
  from a have old: "get_proxies_by_proxy_object m p = None"
    by (auto simp: get_proxies_by_proxy_object_def ProxyManager_contains_def)
  from a have nc: "\<not> contains_proxy_id (dev m) (pxy_id p)"
    by (simp add: ProxyManager_contains_def)
  let ?s0 = "(dev m)\<lparr>proxy_id_to_proxy :=
                AList.update (pxy_id p) (pxy_id p) (proxy_id_to_proxy (dev m))\<rparr>"
  let ?s1 = "?s0\<lparr>proxy_id_to_dev_mems := AList.update (pxy_id p) [] (proxy_id_to_dev_mems ?s0)\<rparr>"
  have "pxy_id p \<in> set (map fst (proxy_id_to_dev_mems ?s1))"
    using keys_update [of "pxy_id p" "[]" "proxy_id_to_dev_mems (dev m)"] by simp
  from add_loop_total [OF this] obtain d
    where d: "mem_usage_add_loop sizeof (pxy_id p) (pxy_get_device_memory_objects p) ?s1 = Inr d"
    by blast
  have add: "ProxiesOnDevice_add sizeof (dev m) p = Inr d"
    using a nc d by (simp add: ProxiesOnDevice_add_def Proxies_add_def
        ProxiesOnDevice_mem_usage_add_def Let_def)
  have 1: "ProxyManager_add sizeof m p tag = Inr (m\<lparr>dev := d\<rparr>, [])"
    by (simp add: ProxyManager_add_def old new proxies_add_def add)
  have 2: "contains_proxy_id d (pxy_id p)"
    using ProxiesOnDevice_add_contains [OF add] by simp
  have 3: "mem_usage d = mem_usage (dev m) +
                 (\<Sum>b \<in> {b \<in> set (pxy_get_device_memory_objects p).
                            dict_get_default (dev_mem_to_proxy_ids (dev m)) b = []}. sizeof b)"
    using add_loop_tally [OF d] by simp
  from 1 2 3 show "\<exists>d. ProxyManager_add sizeof m p tag = Inr (m\<lparr>dev := d\<rparr>, [])
             \<and> contains_proxy_id d (pxy_id p)
             \<and> mem_usage d = mem_usage (dev m) +
                 (\<Sum>b \<in> {b \<in> set (pxy_get_device_memory_objects p).
                            dict_get_default (dev_mem_to_proxy_ids (dev m)) b = []}. sizeof b)"
    by blast
qed

theorem get_proxies_by_serializer_default_dev_witness:
  "get_proxies_by_serializer None = Dev
   \<and> get_proxies_by_serializer (Some ''cuda'') = Dev
   \<and> Some ''cuda'' \<notin> {Some ''disk'', Some ''dask'', Some ''pickle''}
   \<and> \<not> ProxyManager_contains (ProxyManager_init 100 100) (pxy_id (cuda_proxy 1 [7] 0))
   \<and> pxy_id (cuda_proxy 1 [7] 0) \<notin> set (map fst (proxy_id_to_dev_mems (dev (ProxyManager_init 100 100))))
   \<and> (\<exists>d. ProxyManager_add (\<lambda>_. 40) (ProxyManager_init 100 100) (cuda_proxy 1 [7] 0) (Some ''cuda'')
            = Inr ((ProxyManager_init 100 100)\<lparr>dev := d\<rparr>, [])
         \<and> contains_proxy_id d 1 \<and> mem_usage d = 40)"
  using get_proxies_by_serializer_default_dev [of None]
    get_proxies_by_serializer_default_dev
      [of "Some ''cuda''" "\<lambda>_. 40" "ProxyManager_init 100 100" "cuda_proxy 1 [7] 0"]
  by (simp add: ProxyManager_contains_def contains_proxy_id_def ProxyManager_init_def
      Proxies_init_def ProxiesOnDevice_init_def cuda_proxy_def dict_get_default_def)

text \<open>
  Claim C8. When \<^verbatim>\<open>Proxies.remove\<close> has deleted the proxy and \<^verbatim>\<open>mem_usage_remove\<close> has
  returned, and no identity is tracked any more, the call returns (it does not raise) with
  the tally set to 0; the warning is emitted exactly when the tally was not 0 before the
  reset.
\<close>

theorem Proxies_remove_empty_tally_reset:
  assumes "contains_proxy_id self (pxy_id proxy)"
    and "mem_usage_remove proxy
           (self\<lparr>proxy_id_to_proxy := AList.delete (pxy_id proxy) (proxy_id_to_proxy self)\<rparr>)
         = Inr self'"
    and "length (proxy_id_to_proxy self') = 0"
  shows "Proxies_remove mem_usage_remove self proxy =
           Inr (self'\<lparr>mem_usage := 0\<rparr>,
                if mem_usage self' \<noteq> 0 then [TallyResetWarning (mem_usage self')] else [])"
  using assms by (simp add: Proxies_remove_def)

theorem Proxies_remove_empty_tally_reset_witness:
  "ProxiesOnHost_add Proxies_init (host_proxy 1 10 0)
     = Inr \<lparr>proxy_id_to_proxy = [(1, 1)], mem_usage = 10\<rparr>
   \<and> ProxiesOnHost_remove \<lparr>proxy_id_to_proxy = [(1, 1)], mem_usage = 10\<rparr> (host_proxy 1 7 0)
     = Inr (\<lparr>proxy_id_to_proxy = [], mem_usage = 0\<rparr>, [TallyResetWarning 3])
   \<and> ProxiesOnHost_remove \<lparr>proxy_id_to_proxy = [(1, 1)], mem_usage = 10\<rparr> (host_proxy 1 10 0)
     = Inr (\<lparr>proxy_id_to_proxy = [], mem_usage = 0\<rparr>, [])"
  using Proxies_remove_empty_tally_reset
      [of "\<lparr>proxy_id_to_proxy = [(1, 1)], mem_usage = 10\<rparr>" "host_proxy 1 7 0"
          ProxiesOnHost_mem_usage_remove "\<lparr>proxy_id_to_proxy = [], mem_usage = 3\<rparr>"]
    Proxies_remove_empty_tally_reset
      [of "\<lparr>proxy_id_to_proxy = [(1, 1)], mem_usage = 10\<rparr>" "host_proxy 1 10 0"
          ProxiesOnHost_mem_usage_remove "\<lparr>proxy_id_to_proxy = [], mem_usage = 0\<rparr>"]
  by (simp add: ProxiesOnHost_remove_def ProxiesOnHost_add_def Proxies_add_def
      ProxiesOnHost_mem_usage_add_def ProxiesOnHost_mem_usage_remove_def contains_proxy_id_def
      host_proxy_def Proxies_init_def)

lemma proxies_contains_simps:
  "proxies_contains m Disk i = contains_proxy_id (disk m) i"
  "proxies_contains m Host i = contains_proxy_id (host m) i"
  "proxies_contains m Dev i = contains_proxy_id (dev m) i"
  by (simp_all add: proxies_contains_def)

lemma located_unique:
  assumes "proxies_contains m r i" and "\<forall>r'. r' \<noteq> r \<longrightarrow> \<not> proxies_contains m r' i"
  shows "contains_proxy_id (disk m) i = (r = Disk)"
    and "contains_proxy_id (host m) i = (r = Host)"
    and "contains_proxy_id (dev m) i = (r = Dev)"
  using assms(1) assms(2) [rule_format, of Disk] assms(2) [rule_format, of Host]
    assms(2) [rule_format, of Dev]
  by (cases r; simp add: proxies_contains_simps)+

text \<open>
  Claim C6. For a proxy tracked by exactly one registry, \<^verbatim>\<open>ProxyManager.add\<close> with a
  serializer tag that maps to that registry returns the manager unchanged (every tracked
  set and every tally as before) and emits no warning.
\<close>

theorem ProxyManager_add_idempotent:
  assumes "proxies_contains m r (pxy_id p)"
    and "\<forall>r'. r' \<noteq> r \<longrightarrow> \<not> proxies_contains m r' (pxy_id p)"
    and "get_proxies_by_serializer tag = r"
  shows "ProxyManager_add sizeof m p tag = Inr (m, [])"
proof -
  have "get_proxies_by_proxy_object m p = Some r"
    using located_unique [OF assms(1,2)] by (cases r) (simp_all add: get_proxies_by_proxy_object_def)
  then show ?thesis by (simp add: ProxyManager_add_def assms(3))
qed


lemma sorted_access_key: "sorted (map access_key (sort_access access))"
  by (simp add: sort_access_def)

lemma evict_loop_prefix:
  "\<exists>k\<le>length xs.
     evict_loop n xs pts fr =
       (pts @ concat (map (\<lambda>x. snd (snd x)) (take k xs)),
        fr + sum_list (map (\<lambda>x. fst (snd x)) (take k xs)))
     \<and> (k < length xs \<longrightarrow> n \<le> fr + sum_list (map (\<lambda>x. fst (snd x)) (take k xs)))
     \<and> (\<forall>j. 0 < j \<and> j < k \<longrightarrow> fr + sum_list (map (\<lambda>x. fst (snd x)) (take j xs)) < n)
     \<and> (xs \<noteq> [] \<longrightarrow> 0 < k)"
proof (induction xs arbitrary: pts fr)
  case Nil
  then show ?case by simp
next
  case (Cons x xs)
  obtain t sz ps where x: "x = (t, sz, ps)" by (cases x) auto
  show ?case
  proof (cases "n \<le> fr + sz")
    case True
    then have "evict_loop n (x # xs) pts fr = (pts @ ps, fr + sz)"
      by (simp add: x)
    with True show ?thesis
      by (intro exI [of _ 1]) (simp add: x)
  next
    case False
    from Cons.IH [of "pts @ ps" "fr + sz"] obtain k where k: "k \<le> length xs"
      and ev: "evict_loop n xs (pts @ ps) (fr + sz) =
         (pts @ ps @ concat (map (\<lambda>x. snd (snd x)) (take k xs)),
          fr + sz + sum_list (map (\<lambda>x. fst (snd x)) (take k xs)))"
      and ge: "k < length xs \<longrightarrow> n \<le> fr + sz + sum_list (map (\<lambda>x. fst (snd x)) (take k xs))"
      and lt: "\<forall>j. 0 < j \<and> j < k \<longrightarrow> fr + sz + sum_list (map (\<lambda>x. fst (snd x)) (take j xs)) < n"
      by auto
    have lt': "fr + sum_list (map (\<lambda>x. fst (snd x)) (take j (x # xs))) < n"
      if "0 < j" "j < Suc k" for j
    proof (cases j)
      case 0
      with that show ?thesis by simp
    next
      case (Suc j')
      show ?thesis
      proof (cases "j' = 0")
        case True
        with Suc False show ?thesis by (simp add: x)
      next
        case False
        with Suc that lt [rule_format, of j'] show ?thesis by (simp add: x add.assoc)
      qed
    qed
    show ?thesis
      using False k ev ge lt'
      by (intro exI [of _ "Suc k"]) (simp add: x add.assoc)
  qed
qed

lemma serialize_loop_first_by_id:
  "serialize_loop f ps seen w = call_each f (first_by_id (set seen) ps) w"
  by (induction ps arbitrary: seen w) (auto simp: set_set_add split: sum.splits)

lemma remdups_snoc: "remdups (ys @ [x]) = removeAll x (remdups ys) @ [x]"
  by (induction ys) auto

lemma first_occurrences_Cons:
  "rev (remdups (rev (x # xs))) = x # removeAll x (rev (remdups (rev xs)))"
proof -
  have "rev (removeAll x ys) = removeAll x (rev ys)" for ys :: "'a list"
    by (induction ys) auto
  then show ?thesis by (simp add: remdups_snoc)
qed

lemma first_by_id_ids:
  "map pxy_id (first_by_id seen ps) = filter (\<lambda>i. i \<notin> seen) (rev (remdups (rev (map pxy_id ps))))"
proof (induction ps arbitrary: seen)
  case Nil
  then show ?case by simp
next
  case (Cons p ps)
  have f1: "filter (\<lambda>i. i \<notin> seen) (removeAll (pxy_id p) xs) = filter (\<lambda>i. i \<notin> seen) xs"
    if "pxy_id p \<in> seen" for xs :: "nat list"
    using that by (induction xs) auto
  have f2: "filter (\<lambda>i. i \<noteq> pxy_id p \<and> i \<notin> seen) xs
          = filter (\<lambda>i. i \<notin> seen) (removeAll (pxy_id p) xs)" for xs :: "nat list"
    by (induction xs) auto
  show ?case
    using Cons.IH [of seen] Cons.IH [of "insert (pxy_id p) seen"]
    by (simp only: list.map first_occurrences_Cons first_by_id.simps)
       (simp add: f1 f2)
qed

lemma first_by_id_find:
  "c \<in> set (first_by_id seen ps) \<Longrightarrow> find (\<lambda>q. pxy_id q = pxy_id c) ps = Some c"
proof (induction ps arbitrary: seen)
  case Nil
  then show ?case by simp
next
  case (Cons p ps)
  show ?case
  proof (cases "pxy_id p = pxy_id c")
    case True
    have "pxy_id c \<notin> set (map pxy_id (first_by_id (insert (pxy_id p) seen) ps))"
      unfolding first_by_id_ids using True by simp
    then have "c \<notin> set (first_by_id (insert (pxy_id p) seen) ps)" by auto
    moreover have "pxy_id c \<notin> set (map pxy_id (first_by_id seen ps))" if "pxy_id p \<in> seen"
      unfolding first_by_id_ids using True that by auto
    then have "c \<notin> set (first_by_id seen ps)" if "pxy_id p \<in> seen"
      using that by auto
    ultimately show ?thesis using Cons.prems True by (auto split: if_splits)
  next
    case False
    with Cons show ?thesis by (auto split: if_splits)
  qed
qed

text \<open>
  Claim C3. \<^verbatim>\<open>evict\<close> consumes a prefix of the sorted snapshot: the first \<open>k\<close> entries, where
  \<open>k\<close> is at least 1 for a non-empty snapshot, the accumulated size stays below \<open>nbytes\<close>
  after each entry before the \<open>k\<close>-th, and reaches \<open>nbytes\<close> unless the whole snapshot was
  consumed.  The serializer is then called on the collected proxies in collection order,
  once per identity (the first occurrence), stopping at the first call that raises; the
  value returned is the sum of the sizes of the consumed entries.
\<close>

theorem evict_accumulates_and_demotes_once:
  assumes "proxies_access w = Inr access"
  shows "\<exists>k\<le>length access.
     (let chosen = take k (sort_access access);
          freed = sum_list (map (\<lambda>x. fst (snd x)) chosen);
          collected = concat (map (\<lambda>x. snd (snd x)) chosen)
      in (\<exists>calls. evict nbytes proxies_access f w
                    = map_sum id (\<lambda>w'. (w', freed)) (call_each f calls w)
            \<and> map pxy_id calls = rev (remdups (rev (map pxy_id collected)))
            \<and> (\<forall>c\<in>set calls. find (\<lambda>q. pxy_id q = pxy_id c) collected = Some c))
         \<and> (k < length access \<longrightarrow> nbytes \<le> freed)
         \<and> (\<forall>j. 0 < j \<and> j < k \<longrightarrow>
               sum_list (map (\<lambda>x. fst (snd x)) (take j (sort_access access))) < nbytes)
         \<and> (access \<noteq> [] \<longrightarrow> 0 < k))"
proof -
  let ?s = "sort_access access"
  have len: "length ?s = length access" by (simp add: sort_access_def)
  have ne: "?s \<noteq> [] \<longleftrightarrow> access \<noteq> []" using len by (metis length_0_conv)
  from evict_loop_prefix [of ?s nbytes "[]" 0] obtain k where k: "k \<le> length ?s"
    and ev: "evict_loop nbytes ?s [] 0 =
       (concat (map (\<lambda>x. snd (snd x)) (take k ?s)), sum_list (map (\<lambda>x. fst (snd x)) (take k ?s)))"
    and ge: "k < length ?s \<longrightarrow> nbytes \<le> sum_list (map (\<lambda>x. fst (snd x)) (take k ?s))"
    and lt: "\<forall>j. 0 < j \<and> j < k \<longrightarrow> sum_list (map (\<lambda>x. fst (snd x)) (take j ?s)) < nbytes"
    and pos: "?s \<noteq> [] \<longrightarrow> 0 < k"
    by auto
  let ?collected = "concat (map (\<lambda>x. snd (snd x)) (take k ?s))"
  let ?calls = "first_by_id {} ?collected"
  have 1: "evict nbytes proxies_access f w
         = map_sum id (\<lambda>w'. (w', sum_list (map (\<lambda>x. fst (snd x)) (take k ?s)))) (call_each f ?calls w)"
    using serialize_loop_first_by_id [of f ?collected "[]" w]
    by (simp add: evict_def assms ev)
  have 2: "map pxy_id ?calls = rev (remdups (rev (map pxy_id ?collected)))"
    by (simp add: first_by_id_ids)
  have 3: "\<forall>c\<in>set ?calls. find (\<lambda>q. pxy_id q = pxy_id c) ?collected = Some c"
    using first_by_id_find by blast
  show ?thesis
    unfolding Let_def
    using k len 1 2 3 ge lt pos ne
    by (intro exI [of _ k] conjI exI [of _ ?calls]) simp_all
qed

lemma sort_access_ordering:
  "sorted (map (\<lambda>x. (fst x, - fst (snd x))) (sort_access access))
   \<and> mset (sort_access access) = mset access
   \<and> (\<forall>k. filter (\<lambda>x. (fst x, - fst (snd x)) = k) (sort_access access)
          = filter (\<lambda>x. (fst x, - fst (snd x)) = k) access)
   \<and> (\<forall>i j. i < length access \<and> j < length access
        \<and> (fst (sort_access access ! i) < fst (sort_access access ! j)
           \<or> (fst (sort_access access ! i) = fst (sort_access access ! j)
              \<and> fst (snd (sort_access access ! i)) > fst (snd (sort_access access ! j))))
        \<longrightarrow> i < j)"
proof (intro conjI allI impI)
  have key: "access_key = (\<lambda>x. (fst x, - fst (snd x)))"
    by (simp add: access_key_def fun_eq_iff)
  show s: "sorted (map (\<lambda>x. (fst x, - fst (snd x))) (sort_access access))"
    using sorted_access_key [of access] by (simp add: key)
  show "mset (sort_access access) = mset access"
    by (simp add: sort_access_def)
  show "filter (\<lambda>x. (fst x, - fst (snd x)) = k) (sort_access access)
          = filter (\<lambda>x. (fst x, - fst (snd x)) = k) access" for k
    using sort_key_stable [of access_key k access] by (simp add: sort_access_def key)
  fix i j
  let ?s = "sort_access access"
  assume a: "i < length access \<and> j < length access
        \<and> (fst (?s ! i) < fst (?s ! j)
           \<or> (fst (?s ! i) = fst (?s ! j) \<and> fst (snd (?s ! i)) > fst (snd (?s ! j))))"
  have len: "length ?s = length access" by (simp add: sort_access_def)
  show "i < j"
  proof (rule ccontr)
    assume "\<not> i < j"
    then have "j \<le> i" by simp
    with s a len have "map (\<lambda>x. (fst x, - fst (snd x))) ?s ! j \<le> map (\<lambda>x. (fst x, - fst (snd x))) ?s ! i"
      by (intro sorted_nth_mono) simp_all
    with a len have "(fst (?s ! j), - fst (snd (?s ! j))) \<le> (fst (?s ! i), - fst (snd (?s ! i)))"
      by simp
    with a show False by (auto simp: less_eq_prod_def)
  qed
qed

lemma evict_selects_sorted_prefix:
  assumes "proxies_access w = Inr access"
  shows "\<exists>k\<le>length access.
           evict nbytes proxies_access f w
             = map_sum id
                 (\<lambda>w'. (w', sum_list (map (\<lambda>x. fst (snd x)) (take k (sort_access access)))))
                 (call_each f
                    (first_by_id {} (concat (map (\<lambda>x. snd (snd x)) (take k (sort_access access)))))
                    w)
           \<and> (access \<noteq> [] \<longrightarrow> 0 < k)
           \<and> (k < length access \<longrightarrow>
                 nbytes \<le> sum_list (map (\<lambda>x. fst (snd x)) (take k (sort_access access))))
           \<and> (\<forall>j. 0 < j \<and> j < k \<longrightarrow>
                 sum_list (map (\<lambda>x. fst (snd x)) (take j (sort_access access))) < nbytes)"
proof -
  let ?s = "sort_access access"
  have len: "length ?s = length access" by (simp add: sort_access_def)
  have ne: "?s \<noteq> [] \<longleftrightarrow> access \<noteq> []" using len by (metis length_0_conv)
  from evict_loop_prefix [of ?s nbytes "[]" 0] obtain k where k: "k \<le> length ?s"
    and ev: "evict_loop nbytes ?s [] 0 =
       (concat (map (\<lambda>x. snd (snd x)) (take k ?s)), sum_list (map (\<lambda>x. fst (snd x)) (take k ?s)))"
    and ge: "k < length ?s \<longrightarrow> nbytes \<le> sum_list (map (\<lambda>x. fst (snd x)) (take k ?s))"
    and lt: "\<forall>j. 0 < j \<and> j < k \<longrightarrow> sum_list (map (\<lambda>x. fst (snd x)) (take j ?s)) < nbytes"
    and pos: "?s \<noteq> [] \<longrightarrow> 0 < k"
    by auto
  let ?collected = "concat (map (\<lambda>x. snd (snd x)) (take k ?s))"
  have 1: "evict nbytes proxies_access f w
         = map_sum id (\<lambda>w'. (w', sum_list (map (\<lambda>x. fst (snd x)) (take k ?s))))
             (call_each f (first_by_id {} ?collected) w)"
    using serialize_loop_first_by_id [of f ?collected "[]" w]
    by (simp add: evict_def assms ev)
  show ?thesis
    using k len 1 ge lt pos ne
    by (intro exI [of _ k] conjI) simp_all
qed

text \<open>
  Claim C2. \<^verbatim>\<open>evict\<close> sorts the snapshot with the key \<^verbatim>\<open>(x[0], -x[1])\<close>: the result is
  ascending in that key, a permutation of the snapshot, and stable (entries with equal keys
  keep their snapshot order), so an entry with a smaller access time, or with the same
  access time and a larger size, stands before the other.  What \<^verbatim>\<open>evict\<close> selects is a
  prefix of that order: the first \<open>k\<close> sorted entries, non-empty for a non-empty snapshot and
  cut where the accumulated size first reaches \<open>nbytes\<close>; it returns their summed size and
  serializes their proxies in that order, each identity once.  Hence whenever an entry is
  selected, every entry that is older, or equally old and larger, is selected too and
  earlier.
\<close>

theorem evict_victim_ordering:
  "sorted (map (\<lambda>x. (fst x, - fst (snd x))) (sort_access access))
   \<and> mset (sort_access access) = mset access
   \<and> (\<forall>k. filter (\<lambda>x. (fst x, - fst (snd x)) = k) (sort_access access)
          = filter (\<lambda>x. (fst x, - fst (snd x)) = k) access)
   \<and> (\<forall>i j. i < length access \<and> j < length access
        \<and> (fst (sort_access access ! i) < fst (sort_access access ! j)
           \<or> (fst (sort_access access ! i) = fst (sort_access access ! j)
              \<and> fst (snd (sort_access access ! i)) > fst (snd (sort_access access ! j))))
        \<longrightarrow> i < j)
   \<and> (proxies_access w = Inr access \<longrightarrow>
        (\<exists>k\<le>length access.
           evict nbytes proxies_access f w
             = map_sum id
                 (\<lambda>w'. (w', sum_list (map (\<lambda>x. fst (snd x)) (take k (sort_access access)))))
                 (call_each f
                    (first_by_id {} (concat (map (\<lambda>x. snd (snd x)) (take k (sort_access access)))))
                    w)
           \<and> (access \<noteq> [] \<longrightarrow> 0 < k)
           \<and> (k < length access \<longrightarrow>
                 nbytes \<le> sum_list (map (\<lambda>x. fst (snd x)) (take k (sort_access access))))
           \<and> (\<forall>j. 0 < j \<and> j < k \<longrightarrow>
                 sum_list (map (\<lambda>x. fst (snd x)) (take j (sort_access access))) < nbytes)
           \<and> (\<forall>i j. j < k \<and> i < length access
                 \<and> (fst (sort_access access ! i) < fst (sort_access access ! j)
                    \<or> (fst (sort_access access ! i) = fst (sort_access access ! j)
                       \<and> fst (snd (sort_access access ! i)) > fst (snd (sort_access access ! j))))
                 \<longrightarrow> i < j \<and> i < k)))"
proof -
  note so = sort_access_ordering [of access]
  have ev: "\<exists>k\<le>length access.
           evict nbytes proxies_access f w
             = map_sum id
                 (\<lambda>w'. (w', sum_list (map (\<lambda>x. fst (snd x)) (take k (sort_access access)))))
                 (call_each f
                    (first_by_id {} (concat (map (\<lambda>x. snd (snd x)) (take k (sort_access access)))))
                    w)
           \<and> (access \<noteq> [] \<longrightarrow> 0 < k)
           \<and> (k < length access \<longrightarrow>
                 nbytes \<le> sum_list (map (\<lambda>x. fst (snd x)) (take k (sort_access access))))
           \<and> (\<forall>j. 0 < j \<and> j < k \<longrightarrow>
                 sum_list (map (\<lambda>x. fst (snd x)) (take j (sort_access access))) < nbytes)
           \<and> (\<forall>i j. j < k \<and> i < length access
                 \<and> (fst (sort_access access ! i) < fst (sort_access access ! j)
                    \<or> (fst (sort_access access ! i) = fst (sort_access access ! j)
                       \<and> fst (snd (sort_access access ! i)) > fst (snd (sort_access access ! j))))
                 \<longrightarrow> i < j \<and> i < k)"
    if a: "proxies_access w = Inr access"
  proof -
    from evict_selects_sorted_prefix [of proxies_access w access nbytes f] a obtain k where k: "k \<le> length access"
      and rest: "evict nbytes proxies_access f w
             = map_sum id
                 (\<lambda>w'. (w', sum_list (map (\<lambda>x. fst (snd x)) (take k (sort_access access)))))
                 (call_each f
                    (first_by_id {} (concat (map (\<lambda>x. snd (snd x)) (take k (sort_access access)))))
                    w)
           \<and> (access \<noteq> [] \<longrightarrow> 0 < k)
           \<and> (k < length access \<longrightarrow>
                 nbytes \<le> sum_list (map (\<lambda>x. fst (snd x)) (take k (sort_access access))))
           \<and> (\<forall>j. 0 < j \<and> j < k \<longrightarrow>
                 sum_list (map (\<lambda>x. fst (snd x)) (take j (sort_access access))) < nbytes)"
      by blast
    have ord: "i < j \<and> i < k"
      if h: "j < k \<and> i < length access
                 \<and> (fst (sort_access access ! i) < fst (sort_access access ! j)
                    \<or> (fst (sort_access access ! i) = fst (sort_access access ! j)
                       \<and> fst (snd (sort_access access ! i)) > fst (snd (sort_access access ! j))))"
      for i j
    proof -
      from h k have "i < length access \<and> j < length access
        \<and> (fst (sort_access access ! i) < fst (sort_access access ! j)
           \<or> (fst (sort_access access ! i) = fst (sort_access access ! j)
              \<and> fst (snd (sort_access access ! i)) > fst (snd (sort_access access ! j))))"
        by simp
      then have "i < j"
        by (rule so [THEN conjunct2, THEN conjunct2, THEN conjunct2, rule_format])
      with h show ?thesis by simp
    qed
    show ?thesis
      by (rule exI [of _ k]) (use k rest ord in blast)
  qed
  show ?thesis
    using so ev by blast
qed

lemmas example_defs = manager_with_host_proxy_def manager_with_duplicate_def
  host_proxy_def cuda_proxy_def ProxyManager_init_def Proxies_init_def ProxiesOnDevice_init_def

lemma host_example_located:
  "proxies_contains manager_with_host_proxy Host (pxy_id (host_proxy 1 10 0))"
  "\<forall>r'. r' \<noteq> Host \<longrightarrow> \<not> proxies_contains manager_with_host_proxy r' (pxy_id (host_proxy 1 10 0))"
proof -
  show "proxies_contains manager_with_host_proxy Host (pxy_id (host_proxy 1 10 0))"
    by (simp add: proxies_contains_def contains_proxy_id_def example_defs)
  show "\<forall>r'. r' \<noteq> Host \<longrightarrow> \<not> proxies_contains manager_with_host_proxy r' (pxy_id (host_proxy 1 10 0))"
  proof (intro allI impI)
    fix r' :: proxies_ref
    assume "r' \<noteq> Host"
    then show "\<not> proxies_contains manager_with_host_proxy r' (pxy_id (host_proxy 1 10 0))"
      by (cases r') (simp_all add: proxies_contains_def contains_proxy_id_def example_defs)
  qed
qed

theorem ProxyManager_add_idempotent_witness:
  "proxies_contains manager_with_host_proxy Host (pxy_id (host_proxy 1 10 0))
   \<and> \<not> proxies_contains manager_with_host_proxy Disk (pxy_id (host_proxy 1 10 0))
   \<and> \<not> proxies_contains manager_with_host_proxy Dev (pxy_id (host_proxy 1 10 0))
   \<and> get_proxies_by_serializer (Some ''pickle'') = Host
   \<and> ProxyManager_add (\<lambda>_. 0) manager_with_host_proxy (host_proxy 1 10 0) (Some ''pickle'')
       = Inr (manager_with_host_proxy, [])"
proof -
  have 3: "get_proxies_by_serializer (Some ''pickle'') = Host"
    by (simp add: get_proxies_by_serializer_def)
  have 4: "ProxyManager_add (\<lambda>_. 0) manager_with_host_proxy (host_proxy 1 10 0) (Some ''pickle'')
       = Inr (manager_with_host_proxy, [])"
    by (rule ProxyManager_add_idempotent [OF host_example_located 3])
  show ?thesis
    using host_example_located(2) [rule_format, of Disk] host_example_located(2) [rule_format, of Dev]
    by (intro conjI) (rule host_example_located(1), simp, simp, rule 3, rule 4)
qed


theorem evict_victim_ordering_witness:
  "sort_access access_by_time =
     [(1, 40, [cuda_proxy 1 [10] 1]), (2, 40, [cuda_proxy 2 [20] 2]), (3, 40, [cuda_proxy 3 [30] 3])]
   \<and> sort_access access_tied =
     [(1, 9, [cuda_proxy 2 [20] 1, cuda_proxy 1 [10] 1]), (1, 5, [cuda_proxy 1 [10] 1])]
   \<and> (0 < length access_tied \<and> 1 < length access_tied
      \<and> (fst (sort_access access_tied ! 0) < fst (sort_access access_tied ! 1)
         \<or> (fst (sort_access access_tied ! 0) = fst (sort_access access_tied ! 1)
            \<and> fst (snd (sort_access access_tied ! 0)) > fst (snd (sort_access access_tied ! 1)))))
   \<and> (0::nat) < 1
   \<and> evict 50 (\<lambda>w. Inr access_by_time) record_call [] = Inr ([1, 2], 80)
   \<and> evict 1 (\<lambda>w. Inr access_tied) record_call [] = Inr ([2, 1], 9)
   \<and> (\<exists>k\<le>length access_by_time.
         evict 50 (\<lambda>w. Inr access_by_time) record_call []
           = map_sum id
               (\<lambda>w'. (w', sum_list (map (\<lambda>x. fst (snd x)) (take k (sort_access access_by_time)))))
               (call_each record_call
                  (first_by_id {}
                     (concat (map (\<lambda>x. snd (snd x)) (take k (sort_access access_by_time)))))
                  [])
         \<and> (access_by_time \<noteq> [] \<longrightarrow> 0 < k)
         \<and> (k < length access_by_time \<longrightarrow>
               50 \<le> sum_list (map (\<lambda>x. fst (snd x)) (take k (sort_access access_by_time))))
         \<and> (\<forall>j. 0 < j \<and> j < k \<longrightarrow>
               sum_list (map (\<lambda>x. fst (snd x)) (take j (sort_access access_by_time))) < 50)
         \<and> (\<forall>i j. j < k \<and> i < length access_by_time
               \<and> (fst (sort_access access_by_time ! i) < fst (sort_access access_by_time ! j)
                  \<or> (fst (sort_access access_by_time ! i) = fst (sort_access access_by_time ! j)
                     \<and> fst (snd (sort_access access_by_time ! i))
                         > fst (snd (sort_access access_by_time ! j))))
               \<longrightarrow> i < j \<and> i < k))"
proof -
  have e1: "sort_access access_by_time =
     [(1, 40, [cuda_proxy 1 [10] 1]), (2, 40, [cuda_proxy 2 [20] 2]), (3, 40, [cuda_proxy 3 [30] 3])]"
    by (simp add: sort_access_def access_key_def access_by_time_def)
  have e2: "sort_access access_tied =
     [(1, 9, [cuda_proxy 2 [20] 1, cuda_proxy 1 [10] 1]), (1, 5, [cuda_proxy 1 [10] 1])]"
    by (simp add: sort_access_def access_key_def access_tied_def)
  have h: "0 < length access_tied \<and> 1 < length access_tied
      \<and> (fst (sort_access access_tied ! 0) < fst (sort_access access_tied ! 1)
         \<or> (fst (sort_access access_tied ! 0) = fst (sort_access access_tied ! 1)
            \<and> fst (snd (sort_access access_tied ! 0)) > fst (snd (sort_access access_tied ! 1))))"
    unfolding e2 by (simp add: access_tied_def)
  have c: "(0::nat) < 1"
    by (rule evict_victim_ordering
          [where access = access_tied and proxies_access = "\<lambda>w. Inr access_tied"
             and w = "[] :: nat list" and nbytes = 1 and f = record_call,
           THEN conjunct2, THEN conjunct2, THEN conjunct2, THEN conjunct1, rule_format, OF h])
  have v1: "evict 50 (\<lambda>w. Inr access_by_time) record_call [] = Inr ([1, 2], 80)"
    by (simp add: evict_def sort_access_def access_key_def access_by_time_def cuda_proxy_def
        set_add_def record_call_def)
  have v2: "evict 1 (\<lambda>w. Inr access_tied) record_call [] = Inr ([2, 1], 9)"
    by (simp add: evict_def sort_access_def access_key_def access_tied_def cuda_proxy_def
        set_add_def record_call_def)
  have a: "(\<lambda>w. Inr access_by_time) ([] :: nat list) = Inr access_by_time" by simp
  note t = evict_victim_ordering
          [where access = access_by_time and proxies_access = "\<lambda>w. Inr access_by_time"
             and w = "[] :: nat list" and nbytes = 50 and f = record_call,
           THEN conjunct2, THEN conjunct2, THEN conjunct2, THEN conjunct2, rule_format, OF a]
  show ?thesis
    by (rule conjI [OF e1 conjI [OF e2 conjI [OF h conjI [OF c conjI [OF v1 conjI [OF v2 t]]]]]])
qed

theorem evict_accumulates_and_demotes_once_witness:
  "(\<lambda>w. Inr access_tied) ([] :: nat list) = Inr access_tied
   \<and> evict 12 (\<lambda>w. Inr access_tied) (\<lambda>p w. Inr (w @ [pxy_id p])) ([] :: nat list)
       = Inr ([2, 1], 14)
   \<and> (\<exists>k\<le>length access_tied.
         (let chosen = take k (sort_access access_tied);
              freed = sum_list (map (\<lambda>x. fst (snd x)) chosen);
              collected = concat (map (\<lambda>x. snd (snd x)) chosen)
          in (\<exists>calls. evict 12 (\<lambda>w. Inr access_tied) (\<lambda>p w. Inr (w @ [pxy_id p])) ([] :: nat list)
                        = map_sum id (\<lambda>w'. (w', freed))
                            (call_each (\<lambda>p w. Inr (w @ [pxy_id p])) calls [])
                \<and> map pxy_id calls = rev (remdups (rev (map pxy_id collected)))
                \<and> (\<forall>c\<in>set calls. find (\<lambda>q. pxy_id q = pxy_id c) collected = Some c))
             \<and> (k < length access_tied \<longrightarrow> 12 \<le> freed)
             \<and> (\<forall>j. 0 < j \<and> j < k \<longrightarrow>
                   sum_list (map (\<lambda>x. fst (snd x)) (take j (sort_access access_tied))) < 12)
             \<and> (access_tied \<noteq> [] \<longrightarrow> 0 < k)))"
proof -
  have h: "(\<lambda>w. Inr access_tied) ([] :: nat list) = Inr access_tied" by simp
  have e: "evict 12 (\<lambda>w. Inr access_tied) (\<lambda>p w. Inr (w @ [pxy_id p])) ([] :: nat list)
       = Inr ([2, 1], 14)"
    by (simp add: evict_def sort_access_def access_key_def access_tied_def cuda_proxy_def
        set_add_def)
  note c = evict_accumulates_and_demotes_once
      [of "\<lambda>w. Inr access_tied" "[] :: nat list" access_tied 12
          "\<lambda>p w. Inr (w @ [pxy_id p])", OF h]
  show ?thesis
    by (rule conjI [OF h conjI [OF e c]])
qed

lemma inner_lookup:
  "dict_get_default (buffer_to_proxies_inner p bs d) b
     = dict_get_default d b @ map (\<lambda>_. p) (filter (\<lambda>b'. b' = b) bs)"
  by (induction bs arbitrary: d) (auto simp: dict_get_default_update)

lemma inner_keys:
  "set (map fst (buffer_to_proxies_inner p bs d)) = set (map fst d) \<union> set bs"
  by (induction bs arbitrary: d) (auto simp: keys_update simp del: set_map)

lemma inner_distinct:
  "distinct (map fst d) \<Longrightarrow> distinct (map fst (buffer_to_proxies_inner p bs d))"
  by (induction bs arbitrary: d) (auto simp: distinct_update)

lemma loop_lookup:
  "dict_get_default (buffer_to_proxies_loop ps d) b = dict_get_default d b @ appended_for b ps"
  by (induction ps arbitrary: d) (auto simp: inner_lookup appended_for_def)

lemma loop_keys:
  "set (map fst (buffer_to_proxies_loop ps d))
     = set (map fst d) \<union> (\<Union>p\<in>set ps. set (pxy_get_device_memory_objects p))"
  by (induction ps arbitrary: d) (auto simp: inner_keys simp del: set_map)

lemma loop_distinct:
  "distinct (map fst d) \<Longrightarrow> distinct (map fst (buffer_to_proxies_loop ps d))"
  by (induction ps arbitrary: d) (auto simp: inner_distinct)

lemma set_appended_for:
  "set (appended_for b ps) = {p \<in> set ps. b \<in> set (pxy_get_device_memory_objects p)}"
  by (auto simp: appended_for_def)

lemma py_max_Max:
  assumes "xs \<noteq> []"
  shows "py_max xs = Inr (Max (set xs))"
proof (cases xs)
  case Nil
  with assms show ?thesis by simp
next
  case (Cons a list)
  then show ?thesis using Max.set_eq_fold [of a list] by simp
qed

lemma dev_access_entries_nonempty:
  "\<forall>(b, qs) \<in> set d. qs \<noteq> [] \<Longrightarrow>
   dev_access_entries sizeof d
     = Inr (map (\<lambda>(b, qs). (Max (last_access ` set qs), sizeof b, qs)) d)"
  by (induction d) (auto simp: py_max_Max)

lemma distinct_keys_entries:
  "distinct (map fst d) \<Longrightarrow> (b, qs) \<in> set d \<Longrightarrow> dict_get_default d b = qs"
  by (simp add: dict_get_default_def)

text \<open>
  Claim C4. \<^verbatim>\<open>get_dev_access_info\<close> returns (it never raises) a list with exactly one
  entry per distinct device buffer referenced by a live proxy of the device registry: for
  a duplicate-free enumeration \<open>bufs\<close> of those buffers, the entries correspond to the
  buffers in order, the proxies of an entry are exactly the live device proxies that
  reference the buffer, its access time is the maximum of their last access times, and its
  size is \<open>sizeof\<close> of the buffer.
\<close>

theorem get_dev_access_info_shape:
  "\<exists>bufs ents.
     get_dev_access_info sizeof deref m = Inr ents
     \<and> distinct bufs
     \<and> set bufs = (\<Union>p\<in>set (get_proxies deref (dev m)). set (pxy_get_device_memory_objects p))
     \<and> list_all2
         (\<lambda>b e. set (snd (snd e))
                   = {p \<in> set (get_proxies deref (dev m)). b \<in> set (pxy_get_device_memory_objects p)}
               \<and> fst e = Max (last_access `
                   {p \<in> set (get_proxies deref (dev m)). b \<in> set (pxy_get_device_memory_objects p)})
               \<and> fst (snd e) = sizeof b)
         bufs ents"
proof -
  let ?live = "get_proxies deref (dev m)"
  let ?d = "buffer_to_proxies_loop ?live []"
  let ?refs = "\<lambda>b. {p \<in> set ?live. b \<in> set (pxy_get_device_memory_objects p)}"
  have dist: "distinct (map fst ?d)" by (rule loop_distinct) simp
  have keys: "set (map fst ?d) = (\<Union>p\<in>set ?live. set (pxy_get_device_memory_objects p))"
    using loop_keys [of ?live "[]"] by simp
  have entry: "set qs = ?refs b \<and> qs \<noteq> []" if "(b, qs) \<in> set ?d" for b qs
  proof -
    have "qs = appended_for b ?live"
      using distinct_keys_entries [OF dist that] loop_lookup [of ?live "[]" b]
      by (simp add: dict_get_default_def)
    then have s: "set qs = ?refs b" by (simp only: set_appended_for)
    from that have "b \<in> set (map fst ?d)" by force
    with keys have "?refs b \<noteq> {}" by auto
    with s show ?thesis by auto
  qed
  then have "\<forall>(b, qs) \<in> set ?d. qs \<noteq> []" by auto
  from dev_access_entries_nonempty [OF this]
  have res: "get_dev_access_info sizeof deref m
      = Inr (map (\<lambda>(b, qs). (Max (last_access ` set qs), sizeof b, qs)) ?d)"
    by (simp add: get_dev_access_info_def)
  have "list_all2 (\<lambda>b e. set (snd (snd e)) = ?refs b \<and> fst e = Max (last_access ` ?refs b)
               \<and> fst (snd e) = sizeof b)
          (map fst ?d) (map (\<lambda>(b, qs). (Max (last_access ` set qs), sizeof b, qs)) ?d)"
    unfolding list_all2_map1 list_all2_map2
    by (rule list_all2_same [THEN iffD2]) (use entry in auto)
  with res dist keys show ?thesis by blast
qed

theorem get_dev_access_info_shape_witness:
  "get_dev_access_info sizeof_example objects_with_aliases manager_with_aliases
     = Inr [(5, 50, [cuda_proxy 1 [7] 1, cuda_proxy 2 [7, 8] 5]), (5, 30, [cuda_proxy 2 [7, 8] 5])]
   \<and> (\<exists>bufs ents.
     get_dev_access_info sizeof_example objects_with_aliases manager_with_aliases = Inr ents
     \<and> distinct bufs
     \<and> set bufs = (\<Union>p\<in>set (get_proxies objects_with_aliases (dev manager_with_aliases)).
                     set (pxy_get_device_memory_objects p))
     \<and> list_all2
         (\<lambda>b e. set (snd (snd e))
                   = {p \<in> set (get_proxies objects_with_aliases (dev manager_with_aliases)).
                        b \<in> set (pxy_get_device_memory_objects p)}
               \<and> fst e = Max (last_access `
                   {p \<in> set (get_proxies objects_with_aliases (dev manager_with_aliases)).
                      b \<in> set (pxy_get_device_memory_objects p)})
               \<and> fst (snd e) = sizeof_example b)
         bufs ents)"
proof -
  have e: "get_dev_access_info sizeof_example objects_with_aliases manager_with_aliases
     = Inr [(5, 50, [cuda_proxy 1 [7] 1, cuda_proxy 2 [7, 8] 5]), (5, 30, [cuda_proxy 2 [7, 8] 5])]"
    by (simp add: get_dev_access_info_def get_proxies_def List.map_filter_def
        manager_with_aliases_def objects_with_aliases_def sizeof_example_def cuda_proxy_def
        dict_get_default_def)
  show ?thesis
    by (rule conjI [OF e get_dev_access_info_shape])
qed

text \<open>
  Claim C5. \<^verbatim>\<open>maybe_evict\<close> runs the device check and then, on the state it leaves, the
  host check with no extra bytes.  The device check calls \<^verbatim>\<open>evict\<close> exactly when the device
  tally plus the extra bytes exceeds the device limit, with the overage as \<open>nbytes\<close>, the
  device snapshot and the demotion to the host serializers; otherwise it changes nothing.
  The host check is the same against the host limit with the host snapshot and the disk
  demotion.
\<close>

theorem maybe_evict_wiring:
  "maybe_evict sizeof pxy_serialize to_disk extra w =
     (case maybe_evict_from_device sizeof pxy_serialize extra w of
        Inl e \<Rightarrow> Inl e
      | Inr w' \<Rightarrow> maybe_evict_from_host to_disk 0 w')
   \<and> maybe_evict_from_device sizeof pxy_serialize extra w =
       (if mem_usage (dev (manager w)) + extra > device_memory_limit (manager w)
        then map_sum id fst
               (evict (mem_usage (dev (manager w)) + extra - device_memory_limit (manager w))
                  (\<lambda>w. get_dev_access_info sizeof (objects w) (manager w))
                  (pxy_serialize [''dask'', ''pickle'']) w)
        else Inr w)
   \<and> maybe_evict_from_host to_disk extra w =
       (if mem_usage (host (manager w)) + extra > host_memory_limit (manager w)
        then map_sum id fst
               (evict (mem_usage (host (manager w)) + extra - host_memory_limit (manager w))
                  (\<lambda>w. get_host_access_info (objects w) (manager w)) to_disk w)
        else Inr w)"
  by (simp add: maybe_evict_def maybe_evict_from_device_def maybe_evict_from_host_def Let_def)

lemma three_buffers_snapshot:
  "get_dev_access_info (\<lambda>_. 40) (objects three_buffers_world) (manager three_buffers_world)
     = Inr [(1, 40, [(cuda_proxy 1 [10] 1)\<lparr>pxy_sizeof := 40\<rparr>]),
            (2, 40, [(cuda_proxy 2 [20] 2)\<lparr>pxy_sizeof := 40\<rparr>]),
            (3, 40, [(cuda_proxy 3 [30] 3)\<lparr>pxy_sizeof := 40\<rparr>])]"
  by (simp add: get_dev_access_info_def get_proxies_def List.map_filter_def
      three_buffers_world_def cuda_proxy_def dict_get_default_def)

lemma three_buffers_demote_first:
  "map_sum id usage_summary
     (example_pxy_serialize (\<lambda>_. 40) [''dask'', ''pickle'']
        ((cuda_proxy 1 [10] 1)\<lparr>pxy_sizeof := 40\<rparr>) three_buffers_world)
   = Inr (80, [2, 3], 40, [1], 1000)"
  by (simp add: example_pxy_serialize_def three_buffers_world_def cuda_proxy_def
      ProxyManager_add_def get_proxies_by_proxy_object_def get_proxies_by_serializer_def
      proxies_remove_def proxies_add_def ProxiesOnDevice_remove_def Proxies_remove_def
      ProxiesOnDevice_mem_usage_remove_def ProxiesOnHost_add_def Proxies_add_def
      ProxiesOnHost_mem_usage_add_def contains_proxy_id_def dict_get_default_def
      Proxies_init_def usage_summary_def)

theorem maybe_evict_wiring_witness:
  "mem_usage (dev (manager three_buffers_world)) + 0 > device_memory_limit (manager three_buffers_world)
   \<and> map_sum id usage_summary
       (maybe_evict (\<lambda>_. 40) (example_pxy_serialize (\<lambda>_. 40)) (\<lambda>p w. Inr w) 0 three_buffers_world)
     = Inr (80, [2, 3], 40, [1], 1000)"
proof -
  have over: "mem_usage (dev (manager three_buffers_world)) + 0
      > device_memory_limit (manager three_buffers_world)"
    by (simp add: three_buffers_world_def)
  have target: "mem_usage (dev (manager three_buffers_world)) + 0
      - device_memory_limit (manager three_buffers_world) = 20"
    by (simp add: three_buffers_world_def)
  have ev: "map_sum id (usage_summary \<circ> fst)
      (evict 20 (\<lambda>w. get_dev_access_info (\<lambda>_. 40) (objects w) (manager w))
         (example_pxy_serialize (\<lambda>_. 40) [''dask'', ''pickle'']) three_buffers_world)
      = Inr (80, [2, 3], 40, [1], 1000)"
    using three_buffers_demote_first
    by (auto simp: evict_def three_buffers_snapshot sort_access_def access_key_def
        cuda_proxy_def map_sum_def split: sum.splits)
  note w = maybe_evict_wiring [of "\<lambda>_. 40" "example_pxy_serialize (\<lambda>_. 40)" "\<lambda>p w. Inr w" 0
      three_buffers_world]
  have "map_sum id usage_summary
      (maybe_evict_from_device (\<lambda>_. 40) (example_pxy_serialize (\<lambda>_. 40)) 0 three_buffers_world)
      = map_sum id (usage_summary \<circ> fst)
          (evict 20 (\<lambda>w. get_dev_access_info (\<lambda>_. 40) (objects w) (manager w))
             (example_pxy_serialize (\<lambda>_. 40) [''dask'', ''pickle'']) three_buffers_world)"
    unfolding w [THEN conjunct2, THEN conjunct1] target
    using over by (simp add: sum.map_comp comp_def id_def)
  with ev obtain w' where dev: "maybe_evict_from_device (\<lambda>_. 40) (example_pxy_serialize (\<lambda>_. 40)) 0
      three_buffers_world = Inr w'" and sm: "usage_summary w' = (80, [2, 3], 40, [1], 1000)"
    by (cases "maybe_evict_from_device (\<lambda>_. 40) (example_pxy_serialize (\<lambda>_. 40)) 0
      three_buffers_world") simp_all
  have host: "maybe_evict_from_host (\<lambda>p w. Inr w) 0 w' = Inr w'"
    using sm by (simp add: maybe_evict_from_host_def usage_summary_def)
  have "maybe_evict (\<lambda>_. 40) (example_pxy_serialize (\<lambda>_. 40)) (\<lambda>p w. Inr w) 0 three_buffers_world
      = Inr w'"
    unfolding w [THEN conjunct1] by (simp add: dev host)
  then have res: "map_sum id usage_summary
       (maybe_evict (\<lambda>_. 40) (example_pxy_serialize (\<lambda>_. 40)) (\<lambda>p w. Inr w) 0 three_buffers_world)
     = Inr (80, [2, 3], 40, [1], 1000)"
    by (simp add: sm)
  show ?thesis
    by (rule conjI [OF over res])
qed

lemma dict_get_default_in_keys:
  "map_of al k = Some v \<Longrightarrow> dict_get_default al k = v"
  by (simp add: dict_get_default_def)

lemma in_keys_map_of:
  "k \<in> set (map fst al) \<Longrightarrow> \<exists>v. map_of al k = Some v"
  by (metis map_of_eq_None_iff not_Some_eq set_map)

lemma alias_inv_pid_irrelevant: "alias_inv sz [] p s = alias_inv sz [] q s"
  by (simp add: alias_inv_def)

lemma add_step_inv:
  fixes b :: nat and s :: ProxiesOnDevice
  assumes inv: "alias_inv sz [] pid s"
    and ms: "map_of (proxy_id_to_dev_mems s) pid = Some ms"
  defines "ps \<equiv> dict_get_default (dev_mem_to_proxy_ids s) b"
  defines "s' \<equiv> s\<lparr>proxy_id_to_dev_mems := AList.update pid (set_add b ms) (proxy_id_to_dev_mems s),
                   mem_usage := (if ps = [] then mem_usage s + sz b else mem_usage s),
                   dev_mem_to_proxy_ids := AList.update b (set_add pid ps) (dev_mem_to_proxy_ids s)\<rparr>"
  shows "alias_inv sz [] pid s'"
proof -
  let ?P = "dict_get_default (proxy_id_to_dev_mems s)"
  let ?D = "dict_get_default (dev_mem_to_proxy_ids s)"
  let ?K = "set (map fst (dev_mem_to_proxy_ids s))"
  have Ppid: "?P pid = ms" using ms by (rule dict_get_default_in_keys)
  from inv have d: "\<And>q. distinct (?P q)"
    and r: "\<And>b. set (?D b) = {q. b \<in> set (?P q)}"
    and k: "?K = {b. ?D b \<noteq> []}"
    and t: "mem_usage s = sum sz ?K"
    by (simp_all add: alias_inv_def)
  have P': "dict_get_default (proxy_id_to_dev_mems s') q
      = (if q = pid then set_add b ms else ?P q)" for q
    by (simp add: s'_def dict_get_default_update)
  have D': "dict_get_default (dev_mem_to_proxy_ids s') c
      = (if c = b then set_add pid ps else ?D c)" for c
    by (simp add: s'_def dict_get_default_update)
  have K': "set (map fst (dev_mem_to_proxy_ids s')) = insert b ?K"
    using keys_update [of b "set_add pid ps" "dev_mem_to_proxy_ids s"] by (simp add: s'_def)
  have 1: "\<forall>q. distinct (dict_get_default (proxy_id_to_dev_mems s') q)"
    using d Ppid by (auto simp: P' distinct_set_add)
  have 2: "\<forall>c. set (dict_get_default (dev_mem_to_proxy_ids s') c)
      = {q. c \<in> set (dict_get_default (proxy_id_to_dev_mems s') q)} \<union> (if c \<in> set [] then {pid} else {})"
    using r Ppid by (auto simp: P' D' set_set_add ps_def)
  have 3: "set (map fst (dev_mem_to_proxy_ids s')) = {c. dict_get_default (dev_mem_to_proxy_ids s') c \<noteq> []}"
    unfolding K' using k by (auto simp: D' set_add_nonempty)
  have fin: "finite ?K" by simp
  have "b \<in> ?K \<longleftrightarrow> ps \<noteq> []" using k by (auto simp: ps_def)
  then have "sum sz (insert b ?K) = (if ps = [] then sum sz ?K + sz b else sum sz ?K)"
    using fin by (auto simp: insert_absorb)
  then have 4: "mem_usage s' = sum sz (set (map fst (dev_mem_to_proxy_ids s')))"
    unfolding K' using t by (simp add: s'_def)
  show ?thesis unfolding alias_inv_def using 1 2 3 4 by blast
qed

lemma add_loop_inv:
  assumes "alias_inv sz [] pid s" and "pid \<in> set (map fst (proxy_id_to_dev_mems s))"
  shows "\<exists>s'. mem_usage_add_loop sz pid bs s = Inr s'
           \<and> alias_inv sz [] pid s'
           \<and> set (map fst (proxy_id_to_dev_mems s')) = set (map fst (proxy_id_to_dev_mems s))
           \<and> proxy_id_to_proxy s' = proxy_id_to_proxy s
           \<and> (\<forall>q. dev_mems_of s' q = dev_mems_of s q \<union> (if q = pid then set bs else {}))"
  using assms
proof (induction bs arbitrary: s)
  case Nil
  then show ?case by simp
next
  case (Cons b bs)
  from in_keys_map_of [OF Cons.prems(2)] obtain ms
    where ms: "map_of (proxy_id_to_dev_mems s) pid = Some ms" by blast
  define ps where "ps = dict_get_default (dev_mem_to_proxy_ids s) b"
  define s3 where "s3 = s\<lparr>proxy_id_to_dev_mems := AList.update pid (set_add b ms) (proxy_id_to_dev_mems s),
                   mem_usage := (if ps = [] then mem_usage s + sz b else mem_usage s),
                   dev_mem_to_proxy_ids := AList.update b (set_add pid ps) (dev_mem_to_proxy_ids s)\<rparr>"
  have step: "mem_usage_add_loop sz pid (b # bs) s = mem_usage_add_loop sz pid bs s3"
    using ms by (simp add: Let_def s3_def ps_def)
  have inv3: "alias_inv sz [] pid s3"
    unfolding s3_def ps_def by (rule add_step_inv [OF Cons.prems(1) ms])
  have keys3: "set (map fst (proxy_id_to_dev_mems s3)) = set (map fst (proxy_id_to_dev_mems s))"
    using keys_update [of pid "set_add b ms" "proxy_id_to_dev_mems s"] Cons.prems(2)
    by (auto simp: s3_def)
  have T3: "proxy_id_to_proxy s3 = proxy_id_to_proxy s" by (simp add: s3_def)
  have P3: "dev_mems_of s3 q = dev_mems_of s q \<union> (if q = pid then {b} else {})" for q
    using dict_get_default_in_keys [OF ms]
    by (auto simp: dev_mems_of_def s3_def dict_get_default_update set_set_add)
  from keys3 Cons.prems(2) have "pid \<in> set (map fst (proxy_id_to_dev_mems s3))" by simp
  from Cons.IH [OF inv3 this] obtain s' where
    "mem_usage_add_loop sz pid bs s3 = Inr s'" "alias_inv sz [] pid s'"
    "set (map fst (proxy_id_to_dev_mems s')) = set (map fst (proxy_id_to_dev_mems s3))"
    "proxy_id_to_proxy s' = proxy_id_to_proxy s3"
    "\<forall>q. dev_mems_of s' q = dev_mems_of s3 q \<union> (if q = pid then set bs else {})"
    by blast
  then show ?case
    unfolding step using keys3 T3 P3 by (intro exI [of _ s']) auto
qed

lemma remove_step_inv:
  fixes b :: nat and s :: ProxiesOnDevice
  assumes inv: "alias_inv sz (b # rest) pid s"
    and dist: "distinct (b # rest)"
    and gone: "dict_get_default (proxy_id_to_dev_mems s) pid = []"
  defines "ps \<equiv> dict_get_default (dev_mem_to_proxy_ids s) b"
  defines "s' \<equiv> (if removeAll pid ps = []
                  then s\<lparr>dev_mem_to_proxy_ids := AList.delete b (dev_mem_to_proxy_ids s),
                         mem_usage := mem_usage s - sz b\<rparr>
                  else s\<lparr>dev_mem_to_proxy_ids :=
                           AList.update b (removeAll pid ps) (dev_mem_to_proxy_ids s)\<rparr>)"
  shows "pid \<in> set ps \<and> alias_inv sz rest pid s'"
proof -
  let ?P = "dict_get_default (proxy_id_to_dev_mems s)"
  let ?D = "dict_get_default (dev_mem_to_proxy_ids s)"
  let ?K = "set (map fst (dev_mem_to_proxy_ids s))"
  from inv have d: "\<And>q. distinct (?P q)"
    and r: "\<And>c. set (?D c) = {q. c \<in> set (?P q)} \<union> (if c \<in> set (b # rest) then {pid} else {})"
    and k: "?K = {c. ?D c \<noteq> []}"
    and t: "mem_usage s = sum sz ?K"
    by (simp_all add: alias_inv_def)
  have mem: "pid \<in> set ps" using r [of b] by (simp add: ps_def)
  have notin: "pid \<notin> {q. c \<in> set (?P q)}" for c using gone by simp
  have ps': "set ps - {pid} = {q. b \<in> set (?P q)}"
    using r [of b] notin [of b] by (auto simp: ps_def)
  have bK: "b \<in> ?K" using k mem by (auto simp: ps_def)
  have P': "proxy_id_to_dev_mems s' = proxy_id_to_dev_mems s" by (simp add: s'_def)
  have D': "dict_get_default (dev_mem_to_proxy_ids s') c
      = (if c = b then removeAll pid ps else ?D c)" for c
    by (auto simp: s'_def dict_get_default_update dict_get_default_delete)
  have K': "set (map fst (dev_mem_to_proxy_ids s'))
      = (if removeAll pid ps = [] then ?K - {b} else ?K)"
    using keys_update [of b "removeAll pid ps" "dev_mem_to_proxy_ids s"]
      keys_delete [of b "dev_mem_to_proxy_ids s"] bK
    by (auto simp: s'_def simp del: set_map)
  have 1: "\<forall>q. distinct (dict_get_default (proxy_id_to_dev_mems s') q)"
    using d by (simp add: P')
  have 2: "\<forall>c. set (dict_get_default (dev_mem_to_proxy_ids s') c)
      = {q. c \<in> set (dict_get_default (proxy_id_to_dev_mems s') q)}
        \<union> (if c \<in> set rest then {pid} else {})"
  proof
    fix c
    show "set (dict_get_default (dev_mem_to_proxy_ids s') c)
      = {q. c \<in> set (dict_get_default (proxy_id_to_dev_mems s') q)}
        \<union> (if c \<in> set rest then {pid} else {})"
    proof (cases "c = b")
      case True
      with dist have "c \<notin> set rest" by simp
      with True show ?thesis by (simp add: D' P' ps')
    next
      case False
      then show ?thesis using r [of c] by (simp add: D' P')
    qed
  qed
  have 3: "set (map fst (dev_mem_to_proxy_ids s'))
      = {c. dict_get_default (dev_mem_to_proxy_ids s') c \<noteq> []}"
    unfolding K' using k bK by (auto simp: D')
  have fin: "finite ?K" by simp
  have "sum sz (?K - {b}) = sum sz ?K - sz b"
    using fin bK by (simp add: sum_diff1)
  then have 4: "mem_usage s' = sum sz (set (map fst (dev_mem_to_proxy_ids s')))"
    unfolding K' using t by (simp add: s'_def)
  have "alias_inv sz rest pid s'" unfolding alias_inv_def using 1 2 3 4 by blast
  with mem show ?thesis by blast
qed

lemma remove_loop_inv:
  assumes "alias_inv sz bs pid s" and "distinct bs"
    and "dict_get_default (proxy_id_to_dev_mems s) pid = []"
  shows "\<exists>s'. mem_usage_remove_loop sz pid bs s = Inr s'
           \<and> alias_inv sz [] pid s'
           \<and> proxy_id_to_dev_mems s' = proxy_id_to_dev_mems s
           \<and> proxy_id_to_proxy s' = proxy_id_to_proxy s"
  using assms
proof (induction bs arbitrary: s)
  case Nil
  then show ?case by simp
next
  case (Cons b bs)
  define ps where "ps = dict_get_default (dev_mem_to_proxy_ids s) b"
  define s1 where "s1 = (if removeAll pid ps = []
                  then s\<lparr>dev_mem_to_proxy_ids := AList.delete b (dev_mem_to_proxy_ids s),
                         mem_usage := mem_usage s - sz b\<rparr>
                  else s\<lparr>dev_mem_to_proxy_ids :=
                           AList.update b (removeAll pid ps) (dev_mem_to_proxy_ids s)\<rparr>)"
  have "pid \<in> set ps \<and> alias_inv sz bs pid s1"
    unfolding ps_def s1_def by (rule remove_step_inv [OF Cons.prems(1,2,3)])
  then have mem: "pid \<in> set ps" and inv1: "alias_inv sz bs pid s1"
    by blast+
  have step: "mem_usage_remove_loop sz pid (b # bs) s = mem_usage_remove_loop sz pid bs s1"
    using mem by (simp add: Let_def s1_def ps_def)
  have P1: "proxy_id_to_dev_mems s1 = proxy_id_to_dev_mems s"
    and T1: "proxy_id_to_proxy s1 = proxy_id_to_proxy s"
    by (simp_all add: s1_def)
  from Cons.prems have "distinct bs"
    and "dict_get_default (proxy_id_to_dev_mems s1) pid = []"
    by (simp_all add: P1)
  from Cons.IH [OF inv1 this] show ?case
    unfolding step by (simp add: P1 T1)
qed

lemma alias_inv_init: "registry_inv sz ProxiesOnDevice_init"
  by (simp add: registry_inv_def alias_inv_def ProxiesOnDevice_init_def dict_get_default_def)

lemma registry_inv_untracked:
  assumes "registry_inv sz s" and "\<not> contains_proxy_id s i"
  shows "dict_get_default (proxy_id_to_dev_mems s) i = []"
  using assms
  by (intro dict_get_default_notin) (simp add: registry_inv_def contains_proxy_id_def)

lemma registry_inv_referenced:
  assumes "registry_inv sz s"
  shows "set (map fst (dev_mem_to_proxy_ids s)) = referenced s"
proof -
  let ?P = "dict_get_default (proxy_id_to_dev_mems s)"
  let ?D = "dict_get_default (dev_mem_to_proxy_ids s)"
  from assms have r: "\<And>b. set (?D b) = {q. b \<in> set (?P q)}"
    and k: "set (map fst (dev_mem_to_proxy_ids s)) = {b. ?D b \<noteq> []}"
    by (simp_all add: registry_inv_def alias_inv_def)
  have "?D b \<noteq> [] \<longleftrightarrow> (\<exists>q. b \<in> set (?P q))" for b
    using r [of b] by (metis (mono_tags, lifting) Collect_empty_eq set_empty)
  moreover have "contains_proxy_id s q" if "b \<in> set (?P q)" for b q
  proof (rule ccontr)
    assume "\<not> contains_proxy_id s q"
    from registry_inv_untracked [OF assms this] that show False by simp
  qed
  ultimately have "{b. ?D b \<noteq> []} = (\<Union>q\<in>{q. contains_proxy_id s q}. set (?P q))"
    by blast
  moreover have "{q. contains_proxy_id s q} = set (map fst (proxy_id_to_proxy s))"
    by (simp add: contains_proxy_id_def)
  ultimately show ?thesis
    unfolding k referenced_def dev_mems_of_def by simp
qed

lemma registry_inv_tally:
  "registry_inv sz s \<Longrightarrow> mem_usage s = (\<Sum>b\<in>referenced s. sz b)"
  using registry_inv_referenced [of sz s] by (simp add: registry_inv_def alias_inv_def)

lemma add_tracked_fails:
  "contains_proxy_id s (pxy_id p) \<Longrightarrow> ProxiesOnDevice_add sz s p = Inl (AssertionError [])"
  by (simp add: ProxiesOnDevice_add_def Proxies_add_def)

lemma remove_untracked_fails:
  "\<not> contains_proxy_id s (pxy_id p) \<Longrightarrow> ProxiesOnDevice_remove sz s p = Inl KeyError"
  by (simp add: ProxiesOnDevice_remove_def Proxies_remove_def)

lemma add_registry:
  assumes inv: "registry_inv sz s" and nc: "\<not> contains_proxy_id s (pxy_id p)"
  shows "\<exists>s'. ProxiesOnDevice_add sz s p = Inr s' \<and> registry_inv sz s'
     \<and> (\<forall>i. contains_proxy_id s' i \<longleftrightarrow> i = pxy_id p \<or> contains_proxy_id s i)
     \<and> (\<forall>q. dev_mems_of s' q
             = dev_mems_of s q \<union> (if q = pxy_id p then set (pxy_get_device_memory_objects p) else {}))"
proof -
  let ?pid = "pxy_id p"
  let ?s0 = "s\<lparr>proxy_id_to_proxy := AList.update ?pid ?pid (proxy_id_to_proxy s)\<rparr>"
  let ?s1 = "?s0\<lparr>proxy_id_to_dev_mems := AList.update ?pid [] (proxy_id_to_dev_mems ?s0)\<rparr>"
  from inv have keq: "set (map fst (proxy_id_to_dev_mems s)) = set (map fst (proxy_id_to_proxy s))"
    and ainv: "alias_inv sz [] ?pid s"
    by (simp_all add: registry_inv_def alias_inv_pid_irrelevant [of sz 0 s ?pid])
  have nk: "?pid \<notin> set (map fst (proxy_id_to_dev_mems s))"
    using nc keq by (simp add: contains_proxy_id_def)
  have empty: "dict_get_default (proxy_id_to_dev_mems s) ?pid = []"
    by (rule registry_inv_untracked [OF inv nc])
  have P1: "dict_get_default (proxy_id_to_dev_mems ?s1) q
      = dict_get_default (proxy_id_to_dev_mems s) q" for q
    using empty by (simp add: dict_get_default_update)
  have inv1: "alias_inv sz [] ?pid ?s1"
    using ainv unfolding alias_inv_def P1 by simp
  have k1: "set (map fst (proxy_id_to_dev_mems ?s1)) = insert ?pid (set (map fst (proxy_id_to_dev_mems s)))"
    using keys_update [of ?pid "[]" "proxy_id_to_dev_mems s"] by simp
  then have "?pid \<in> set (map fst (proxy_id_to_dev_mems ?s1))" by blast
  from add_loop_inv [OF inv1 this, of "pxy_get_device_memory_objects p"] obtain s' where
    run: "mem_usage_add_loop sz ?pid (pxy_get_device_memory_objects p) ?s1 = Inr s'"
    and inv': "alias_inv sz [] ?pid s'"
    and k': "set (map fst (proxy_id_to_dev_mems s')) = set (map fst (proxy_id_to_dev_mems ?s1))"
    and T': "proxy_id_to_proxy s' = proxy_id_to_proxy ?s1"
    and P': "\<forall>q. dev_mems_of s' q
        = dev_mems_of ?s1 q \<union> (if q = ?pid then set (pxy_get_device_memory_objects p) else {})"
    by blast
  have add: "ProxiesOnDevice_add sz s p = Inr s'"
    using nc nk run
    by (simp add: ProxiesOnDevice_add_def Proxies_add_def ProxiesOnDevice_mem_usage_add_def Let_def)
  have kT: "set (map fst (proxy_id_to_proxy s')) = insert ?pid (set (map fst (proxy_id_to_proxy s)))"
    using keys_update [of ?pid ?pid "proxy_id_to_proxy s"] by (simp add: T')
  have rinv: "registry_inv sz s'"
    unfolding registry_inv_def using inv' k' k1 kT keq
    by (simp add: alias_inv_pid_irrelevant [of sz 0 s' ?pid])
  have c: "\<forall>i. contains_proxy_id s' i \<longleftrightarrow> i = ?pid \<or> contains_proxy_id s i"
    using ProxiesOnDevice_add_contains [OF add] by blast
  have "dev_mems_of ?s1 q = dev_mems_of s q" for q
    using empty by (simp add: dev_mems_of_def dict_get_default_update)
  with P' have m: "\<forall>q. dev_mems_of s' q
        = dev_mems_of s q \<union> (if q = ?pid then set (pxy_get_device_memory_objects p) else {})"
    by simp
  from add rinv c m show ?thesis by blast
qed

lemma remove_registry:
  assumes inv: "registry_inv sz s" and c: "contains_proxy_id s (pxy_id p)"
  shows "\<exists>s'. ProxiesOnDevice_remove sz s p = Inr (s', []) \<and> registry_inv sz s'
     \<and> (\<forall>i. contains_proxy_id s' i \<longleftrightarrow> i \<noteq> pxy_id p \<and> contains_proxy_id s i)
     \<and> (\<forall>q. dev_mems_of s' q = (if q = pxy_id p then {} else dev_mems_of s q))"
proof -
  let ?pid = "pxy_id p"
  let ?s0 = "s\<lparr>proxy_id_to_proxy := AList.delete ?pid (proxy_id_to_proxy s)\<rparr>"
  let ?s1 = "?s0\<lparr>proxy_id_to_dev_mems := AList.delete ?pid (proxy_id_to_dev_mems ?s0)\<rparr>"
  let ?P = "dict_get_default (proxy_id_to_dev_mems s)"
  from inv have keq: "set (map fst (proxy_id_to_dev_mems s)) = set (map fst (proxy_id_to_proxy s))"
    and ainv: "alias_inv sz [] ?pid s"
    by (simp_all add: registry_inv_def alias_inv_pid_irrelevant [of sz 0 s ?pid])
  from c keq have "?pid \<in> set (map fst (proxy_id_to_dev_mems s))"
    by (simp add: contains_proxy_id_def)
  from in_keys_map_of [OF this] obtain ms
    where ms: "map_of (proxy_id_to_dev_mems s) ?pid = Some ms" by blast
  have Ppid: "?P ?pid = ms" using ms by (rule dict_get_default_in_keys)
  have P1: "dict_get_default (proxy_id_to_dev_mems ?s1) q = (if q = ?pid then [] else ?P q)" for q
    by (simp add: dict_get_default_delete)
  from ainv have d: "\<And>q. distinct (?P q)"
    and r: "\<And>b. set (dict_get_default (dev_mem_to_proxy_ids s) b) = {q. b \<in> set (?P q)}"
    and k: "set (map fst (dev_mem_to_proxy_ids s))
             = {b. dict_get_default (dev_mem_to_proxy_ids s) b \<noteq> []}"
    and t: "mem_usage s = sum sz (set (map fst (dev_mem_to_proxy_ids s)))"
    by (simp_all add: alias_inv_def)
  have dms: "distinct ms" using d [of ?pid] Ppid by simp
  have rel1: "\<forall>b. set (dict_get_default (dev_mem_to_proxy_ids ?s1) b)
      = {q. b \<in> set (dict_get_default (proxy_id_to_dev_mems ?s1) q)}
        \<union> (if b \<in> set ms then {?pid} else {})"
    using r Ppid by (auto simp: dict_get_default_delete)
  have inv1: "alias_inv sz ms ?pid ?s1"
    unfolding alias_inv_def using d rel1 k t by (simp add: dict_get_default_delete)
  have gone: "dict_get_default (proxy_id_to_dev_mems ?s1) ?pid = []"
    by (simp add: dict_get_default_delete)
  from remove_loop_inv [OF inv1 dms gone] obtain s2 where
    run: "mem_usage_remove_loop sz ?pid ms ?s1 = Inr s2"
    and inv2: "alias_inv sz [] ?pid s2"
    and P2: "proxy_id_to_dev_mems s2 = proxy_id_to_dev_mems ?s1"
    and T2: "proxy_id_to_proxy s2 = proxy_id_to_proxy ?s1"
    by blast
  have kP2: "set (map fst (proxy_id_to_dev_mems s2)) = set (map fst (proxy_id_to_dev_mems s)) - {?pid}"
    using keys_delete [of ?pid "proxy_id_to_dev_mems s"] by (simp add: P2)
  have kT2: "set (map fst (proxy_id_to_proxy s2)) = set (map fst (proxy_id_to_proxy s)) - {?pid}"
    using keys_delete [of ?pid "proxy_id_to_proxy s"] by (simp add: T2)
  have rinv: "registry_inv sz s2"
    unfolding registry_inv_def using inv2 kP2 kT2 keq
    by (simp add: alias_inv_pid_irrelevant [of sz 0 s2 ?pid])
  have mur: "ProxiesOnDevice_mem_usage_remove sz p ?s0 = Inr s2"
    using ms run by (simp add: ProxiesOnDevice_mem_usage_remove_def Let_def)
  have zero: "mem_usage s2 = 0" if "proxy_id_to_proxy s2 = []"
  proof -
    from that have "referenced s2 = {}" by (simp add: referenced_def)
    with registry_inv_tally [OF rinv] show ?thesis by simp
  qed
  have rem: "ProxiesOnDevice_remove sz s p = Inr (s2, [])"
    using c mur zero by (auto simp: ProxiesOnDevice_remove_def Proxies_remove_def)
  have cc: "\<forall>i. contains_proxy_id s2 i \<longleftrightarrow> i \<noteq> ?pid \<and> contains_proxy_id s i"
    using ProxiesOnDevice_remove_contains [OF rem] by blast
  have m: "\<forall>q. dev_mems_of s2 q = (if q = ?pid then {} else dev_mems_of s q)"
    by (simp add: dev_mems_of_def P2 dict_get_default_delete)
  from rem rinv cc m show ?thesis by blast
qed

lemma run_ops_inv:
  "registry_inv sz s \<Longrightarrow> run_ops sz ops s = Inr s' \<Longrightarrow> registry_inv sz s'"
proof (induction ops arbitrary: s)
  case Nil
  then show ?case by simp
next
  case (Cons op ops)
  show ?case
  proof (cases op)
    case (Add p)
    show ?thesis
    proof (cases "contains_proxy_id s (pxy_id p)")
      case True
      with Cons.prems(2) Add show ?thesis by (simp add: add_tracked_fails)
    next
      case False
      from add_registry [OF Cons.prems(1) False] obtain s1
        where "ProxiesOnDevice_add sz s p = Inr s1" "registry_inv sz s1" by blast
      with Cons.prems(2) Add Cons.IH [of s1] show ?thesis by simp
    qed
  next
    case (Remove p)
    show ?thesis
    proof (cases "contains_proxy_id s (pxy_id p)")
      case False
      with Cons.prems(2) Remove show ?thesis by (simp add: remove_untracked_fails)
    next
      case True
      from remove_registry [OF Cons.prems(1) True] obtain s1
        where "ProxiesOnDevice_remove sz s p = Inr (s1, [])" "registry_inv sz s1" by blast
      with Cons.prems(2) Remove Cons.IH [of s1] show ?thesis by simp
    qed
  qed
qed

lemma referenced_finite: "registry_inv sz s \<Longrightarrow> finite (referenced s)"
  using registry_inv_referenced [of sz s] by (metis List.finite_set)

lemma referenced_alt:
  "referenced s = (\<Union>i\<in>{i. contains_proxy_id s i}. dev_mems_of s i)"
  by (simp add: referenced_def contains_proxy_id_def)

lemma dev_mems_of_untracked:
  "registry_inv sz s \<Longrightarrow> \<not> contains_proxy_id s i \<Longrightarrow> dev_mems_of s i = {}"
  by (simp add: dev_mems_of_def registry_inv_untracked)

lemma add_tally:
  assumes inv: "registry_inv sz s" and nc: "\<not> contains_proxy_id s (pxy_id p)"
  shows "\<exists>s'. ProxiesOnDevice_add sz s p = Inr s'
     \<and> referenced s' = referenced s \<union> set (pxy_get_device_memory_objects p)
     \<and> mem_usage s' = mem_usage s
          + (\<Sum>b \<in> set (pxy_get_device_memory_objects p) - referenced s. sz b)"
proof -
  let ?B = "set (pxy_get_device_memory_objects p)"
  from add_registry [OF inv nc] obtain s' where add: "ProxiesOnDevice_add sz s p = Inr s'"
    and inv': "registry_inv sz s'"
    and c: "\<forall>i. contains_proxy_id s' i \<longleftrightarrow> i = pxy_id p \<or> contains_proxy_id s i"
    and m: "\<forall>q. dev_mems_of s' q = dev_mems_of s q \<union> (if q = pxy_id p then ?B else {})"
    by blast
  have e: "dev_mems_of s (pxy_id p) = {}" by (rule dev_mems_of_untracked [OF inv nc])
  have ref: "referenced s' = referenced s \<union> ?B"
    unfolding referenced_alt using c m e by (auto split: if_splits)
  have "referenced s \<union> ?B = referenced s \<union> (?B - referenced s)" by blast
  then have "sum sz (referenced s') = sum sz (referenced s) + sum sz (?B - referenced s)"
    unfolding ref using referenced_finite [OF inv]
    by (simp add: sum.union_disjoint Int_Diff del: Un_Diff_cancel)
  then have "mem_usage s' = mem_usage s + sum sz (?B - referenced s)"
    using registry_inv_tally [OF inv] registry_inv_tally [OF inv'] by simp
  with add ref show ?thesis by blast
qed

lemma remove_tally:
  assumes inv: "registry_inv sz s" and c: "contains_proxy_id s (pxy_id p)"
  shows "\<exists>s'. ProxiesOnDevice_remove sz s p = Inr (s', [])
     \<and> referenced s' = referenced s
          - {b \<in> dev_mems_of s (pxy_id p). \<forall>q. q \<noteq> pxy_id p \<longrightarrow> b \<notin> dev_mems_of s q}
     \<and> mem_usage s' = mem_usage s
          - (\<Sum>b \<in> {b \<in> dev_mems_of s (pxy_id p). \<forall>q. q \<noteq> pxy_id p \<longrightarrow> b \<notin> dev_mems_of s q}.
               sz b)"
proof -
  let ?L = "{b \<in> dev_mems_of s (pxy_id p). \<forall>q. q \<noteq> pxy_id p \<longrightarrow> b \<notin> dev_mems_of s q}"
  from remove_registry [OF inv c] obtain s'
    where rem: "ProxiesOnDevice_remove sz s p = Inr (s', [])"
    and inv': "registry_inv sz s'"
    and cc: "\<forall>i. contains_proxy_id s' i \<longleftrightarrow> i \<noteq> pxy_id p \<and> contains_proxy_id s i"
    and m: "\<forall>q. dev_mems_of s' q = (if q = pxy_id p then {} else dev_mems_of s q)"
    by blast
  have u: "dev_mems_of s q = {}" if "\<not> contains_proxy_id s q" for q
    by (rule dev_mems_of_untracked [OF inv that])
  have sub: "?L \<subseteq> referenced s"
    unfolding referenced_alt using c by blast
  have in_ref: "b \<in> referenced s \<longleftrightarrow> (\<exists>i. b \<in> dev_mems_of s i)" for b
    unfolding referenced_alt using u by blast
  have in_ref': "b \<in> referenced s' \<longleftrightarrow> (\<exists>q. q \<noteq> pxy_id p \<and> b \<in> dev_mems_of s q)" for b
  proof -
    have "b \<in> referenced s' \<longleftrightarrow> (\<exists>q. q \<noteq> pxy_id p \<and> contains_proxy_id s q \<and> b \<in> dev_mems_of s q)"
      unfolding referenced_alt using cc m by auto
    then show ?thesis using u by blast
  qed
  have ref: "referenced s' = referenced s - ?L"
  proof (rule set_eqI)
    fix b
    show "b \<in> referenced s' \<longleftrightarrow> b \<in> referenced s - ?L"
      unfolding Diff_iff in_ref in_ref' mem_Collect_eq by (cases "b \<in> dev_mems_of s (pxy_id p)") (auto, metis)
  qed
  have "sum sz (referenced s - ?L) = sum sz (referenced s) - sum sz ?L"
    using referenced_finite [OF inv] sub by (rule sum_diff)
  then have "mem_usage s' = mem_usage s - sum sz ?L"
    using registry_inv_tally [OF inv] registry_inv_tally [OF inv'] ref by simp
  with rem ref show ?thesis by blast
qed

lemma two_aliases:
  assumes ne: "pxy_id p \<noteq> pxy_id q"
    and p: "pxy_get_device_memory_objects p = [b]"
    and q: "pxy_get_device_memory_objects q = [b]"
  shows "map_sum id mem_usage (run_ops sz [Add p] ProxiesOnDevice_init) = Inr (sz b)"
    and "map_sum id mem_usage (run_ops sz [Add p, Add q] ProxiesOnDevice_init) = Inr (sz b)"
    and "map_sum id mem_usage (run_ops sz [Add p, Add q, Remove p] ProxiesOnDevice_init) = Inr (sz b)"
    and "map_sum id mem_usage (run_ops sz [Add p, Add q, Remove q] ProxiesOnDevice_init) = Inr (sz b)"
    and "map_sum id mem_usage (run_ops sz [Add p, Add q, Remove p, Remove q] ProxiesOnDevice_init) = Inr 0"
    and "map_sum id mem_usage (run_ops sz [Add p, Add q, Remove q, Remove p] ProxiesOnDevice_init) = Inr 0"
  using ne ne [symmetric]
  by (simp_all add: p q ProxiesOnDevice_add_def ProxiesOnDevice_remove_def Proxies_add_def
      Proxies_remove_def ProxiesOnDevice_mem_usage_add_def ProxiesOnDevice_mem_usage_remove_def
      contains_proxy_id_def ProxiesOnDevice_init_def dict_get_default_def set_add_def Let_def)

text \<open>
  Claim C1. After every sequence of \<^verbatim>\<open>add\<close> and \<^verbatim>\<open>remove\<close> calls on a fresh
  \<^verbatim>\<open>ProxiesOnDevice\<close> that returned, the tally is the sum of \<open>sizeof\<close> over the distinct device
  memory objects recorded for the tracked proxies, each counted once.  In such a state,
  adding an untracked proxy returns and raises the tally by the sizes of its buffers that no
  tracked proxy referenced, and removing a tracked proxy returns without a warning and
  lowers the tally by the sizes of the buffers that only this proxy referenced.  For two
  proxies that share one buffer \<open>b\<close> the tally is \<open>sizeof b\<close> while either is tracked and
  0 after both are removed.
\<close>

theorem device_tally_alias_safe:
  assumes "run_ops sizeof ops ProxiesOnDevice_init = Inr self"
  shows "mem_usage self = (\<Sum>b\<in>referenced self. sizeof b)
    \<and> (\<forall>proxy. \<not> contains_proxy_id self (pxy_id proxy) \<longrightarrow>
          (\<exists>self'. ProxiesOnDevice_add sizeof self proxy = Inr self'
             \<and> referenced self' = referenced self \<union> set (pxy_get_device_memory_objects proxy)
             \<and> mem_usage self' = mem_usage self
                  + (\<Sum>b \<in> set (pxy_get_device_memory_objects proxy) - referenced self. sizeof b)))
    \<and> (\<forall>proxy. contains_proxy_id self (pxy_id proxy) \<longrightarrow>
          (\<exists>self'. ProxiesOnDevice_remove sizeof self proxy = Inr (self', [])
             \<and> referenced self' = referenced self
                  - {b \<in> dev_mems_of self (pxy_id proxy).
                       \<forall>q. q \<noteq> pxy_id proxy \<longrightarrow> b \<notin> dev_mems_of self q}
             \<and> mem_usage self' = mem_usage self
                  - (\<Sum>b \<in> {b \<in> dev_mems_of self (pxy_id proxy).
                              \<forall>q. q \<noteq> pxy_id proxy \<longrightarrow> b \<notin> dev_mems_of self q}. sizeof b)))
    \<and> (\<forall>p q b. pxy_id p \<noteq> pxy_id q \<and> pxy_get_device_memory_objects p = [b]
           \<and> pxy_get_device_memory_objects q = [b] \<longrightarrow>
          map_sum id mem_usage (run_ops sizeof [Add p] ProxiesOnDevice_init) = Inr (sizeof b)
          \<and> map_sum id mem_usage (run_ops sizeof [Add p, Add q] ProxiesOnDevice_init)
              = Inr (sizeof b)
          \<and> map_sum id mem_usage (run_ops sizeof [Add p, Add q, Remove p] ProxiesOnDevice_init)
              = Inr (sizeof b)
          \<and> map_sum id mem_usage (run_ops sizeof [Add p, Add q, Remove q] ProxiesOnDevice_init)
              = Inr (sizeof b)
          \<and> map_sum id mem_usage
                (run_ops sizeof [Add p, Add q, Remove p, Remove q] ProxiesOnDevice_init) = Inr 0
          \<and> map_sum id mem_usage
                (run_ops sizeof [Add p, Add q, Remove q, Remove p] ProxiesOnDevice_init) = Inr 0)"
proof -
  have inv: "registry_inv sizeof self"
    by (rule run_ops_inv [OF alias_inv_init assms])
  have 1: "mem_usage self = (\<Sum>b\<in>referenced self. sizeof b)"
    by (rule registry_inv_tally [OF inv])
  have 2: "\<forall>proxy. \<not> contains_proxy_id self (pxy_id proxy) \<longrightarrow>
          (\<exists>self'. ProxiesOnDevice_add sizeof self proxy = Inr self'
             \<and> referenced self' = referenced self \<union> set (pxy_get_device_memory_objects proxy)
             \<and> mem_usage self' = mem_usage self
                  + (\<Sum>b \<in> set (pxy_get_device_memory_objects proxy) - referenced self. sizeof b))"
    using add_tally [OF inv] by blast
  have 3: "\<forall>proxy. contains_proxy_id self (pxy_id proxy) \<longrightarrow>
          (\<exists>self'. ProxiesOnDevice_remove sizeof self proxy = Inr (self', [])
             \<and> referenced self' = referenced self
                  - {b \<in> dev_mems_of self (pxy_id proxy).
                       \<forall>q. q \<noteq> pxy_id proxy \<longrightarrow> b \<notin> dev_mems_of self q}
             \<and> mem_usage self' = mem_usage self
                  - (\<Sum>b \<in> {b \<in> dev_mems_of self (pxy_id proxy).
                              \<forall>q. q \<noteq> pxy_id proxy \<longrightarrow> b \<notin> dev_mems_of self q}. sizeof b))"
    using remove_tally [OF inv] by blast
  have 4: "\<forall>p q b. pxy_id p \<noteq> pxy_id q \<and> pxy_get_device_memory_objects p = [b]
           \<and> pxy_get_device_memory_objects q = [b] \<longrightarrow>
          map_sum id mem_usage (run_ops sizeof [Add p] ProxiesOnDevice_init) = Inr (sizeof b)
          \<and> map_sum id mem_usage (run_ops sizeof [Add p, Add q] ProxiesOnDevice_init)
              = Inr (sizeof b)
          \<and> map_sum id mem_usage (run_ops sizeof [Add p, Add q, Remove p] ProxiesOnDevice_init)
              = Inr (sizeof b)
          \<and> map_sum id mem_usage (run_ops sizeof [Add p, Add q, Remove q] ProxiesOnDevice_init)
              = Inr (sizeof b)
          \<and> map_sum id mem_usage
                (run_ops sizeof [Add p, Add q, Remove p, Remove q] ProxiesOnDevice_init) = Inr 0
          \<and> map_sum id mem_usage
                (run_ops sizeof [Add p, Add q, Remove q, Remove p] ProxiesOnDevice_init) = Inr 0"
  proof (intro allI impI)
    fix p q :: ProxyObject and b :: nat
    assume a: "pxy_id p \<noteq> pxy_id q \<and> pxy_get_device_memory_objects p = [b]
           \<and> pxy_get_device_memory_objects q = [b]"
    then have ne: "pxy_id p \<noteq> pxy_id q" and hp: "pxy_get_device_memory_objects p = [b]"
      and hq: "pxy_get_device_memory_objects q = [b]" by blast+
    show "map_sum id mem_usage (run_ops sizeof [Add p] ProxiesOnDevice_init) = Inr (sizeof b)
          \<and> map_sum id mem_usage (run_ops sizeof [Add p, Add q] ProxiesOnDevice_init)
              = Inr (sizeof b)
          \<and> map_sum id mem_usage (run_ops sizeof [Add p, Add q, Remove p] ProxiesOnDevice_init)
              = Inr (sizeof b)
          \<and> map_sum id mem_usage (run_ops sizeof [Add p, Add q, Remove q] ProxiesOnDevice_init)
              = Inr (sizeof b)
          \<and> map_sum id mem_usage
                (run_ops sizeof [Add p, Add q, Remove p, Remove q] ProxiesOnDevice_init) = Inr 0
          \<and> map_sum id mem_usage
                (run_ops sizeof [Add p, Add q, Remove q, Remove p] ProxiesOnDevice_init) = Inr 0"
      by (intro conjI) (rule two_aliases [OF ne hp hq])+
  qed
  show ?thesis
    by (rule conjI [OF 1 conjI [OF 2 conjI [OF 3 4]]])
qed

theorem device_tally_alias_safe_witness:
  "run_ops sizeof_example [Add (cuda_proxy 1 [7] 1), Add (cuda_proxy 2 [7, 8] 5)]
     ProxiesOnDevice_init = Inr registry_with_aliases
   \<and> mem_usage registry_with_aliases = (\<Sum>b\<in>referenced registry_with_aliases. sizeof_example b)
   \<and> referenced registry_with_aliases = {7, 8}
   \<and> contains_proxy_id registry_with_aliases (pxy_id (cuda_proxy 2 [7, 8] 5))
   \<and> (\<exists>self'. ProxiesOnDevice_remove sizeof_example registry_with_aliases (cuda_proxy 2 [7, 8] 5)
                 = Inr (self', [])
         \<and> referenced self' = referenced registry_with_aliases
              - {b \<in> dev_mems_of registry_with_aliases (pxy_id (cuda_proxy 2 [7, 8] 5)).
                   \<forall>q. q \<noteq> pxy_id (cuda_proxy 2 [7, 8] 5) \<longrightarrow> b \<notin> dev_mems_of registry_with_aliases q}
         \<and> mem_usage self' = mem_usage registry_with_aliases
              - (\<Sum>b \<in> {b \<in> dev_mems_of registry_with_aliases (pxy_id (cuda_proxy 2 [7, 8] 5)).
                   \<forall>q. q \<noteq> pxy_id (cuda_proxy 2 [7, 8] 5) \<longrightarrow> b \<notin> dev_mems_of registry_with_aliases q}.
                   sizeof_example b))
   \<and> map_sum id (\<lambda>r. mem_usage (fst r))
       (ProxiesOnDevice_remove sizeof_example registry_with_aliases (cuda_proxy 2 [7, 8] 5))
       = Inr 50"
proof -
  have h: "run_ops sizeof_example [Add (cuda_proxy 1 [7] 1), Add (cuda_proxy 2 [7, 8] 5)]
     ProxiesOnDevice_init = Inr registry_with_aliases"
    by (simp add: ProxiesOnDevice_add_def Proxies_add_def ProxiesOnDevice_mem_usage_add_def
        contains_proxy_id_def ProxiesOnDevice_init_def dict_get_default_def set_add_def Let_def
        cuda_proxy_def sizeof_example_def registry_with_aliases_def)
  note t = device_tally_alias_safe [OF h]
  have r: "referenced registry_with_aliases = {7, 8}"
    by (auto simp: referenced_def dev_mems_of_def dict_get_default_def registry_with_aliases_def)
  have c: "contains_proxy_id registry_with_aliases (pxy_id (cuda_proxy 2 [7, 8] 5))"
    by (simp add: contains_proxy_id_def registry_with_aliases_def cuda_proxy_def)
  have e: "map_sum id (\<lambda>r. mem_usage (fst r))
       (ProxiesOnDevice_remove sizeof_example registry_with_aliases (cuda_proxy 2 [7, 8] 5))
       = Inr 50"
    by (simp add: ProxiesOnDevice_remove_def Proxies_remove_def
        ProxiesOnDevice_mem_usage_remove_def contains_proxy_id_def dict_get_default_def Let_def
        cuda_proxy_def sizeof_example_def registry_with_aliases_def)
  show ?thesis
    by (rule conjI [OF h conjI [OF t [THEN conjunct1] conjI [OF r conjI [OF c
          conjI [OF t [THEN conjunct2, THEN conjunct2, THEN conjunct1, rule_format, OF c] e]]]]])
qed










lemmas host_file_eval =
  setitem_def delitem_def initialize_spill_on_demand_once_def proxify_def
  example_proxify_device_objects_def example_owned_proxies_def
  maybe_evict_def maybe_evict_from_device_def
  maybe_evict_from_host_def ProxyManager_contains_def ProxyManager_add_def
  ProxyManager_remove_def proxies_remove_def ProxiesOnDevice_remove_def Proxies_remove_def
  ProxiesOnDevice_mem_usage_remove_def
  get_proxies_by_proxy_object_def get_proxies_by_serializer_def proxies_add_def
  ProxiesOnDevice_add_def Proxies_add_def ProxiesOnDevice_mem_usage_add_def
  contains_proxy_id_def dict_get_default_def set_add_def Let_def cuda_proxy_def
  ProxyManager_init_def Proxies_init_def ProxiesOnDevice_init_def sizeof_example_def
  keep_pxy_serialize_def keep_to_disk_def

lemma first_insert:
  "setitem sizeof_example example_owned_proxies example_proxify_device_objects 1
     keep_pxy_serialize keep_to_disk 5 0 empty_host_file = Inr (host_file_with_key, [])"
  by (simp add: host_file_eval empty_host_file_def host_file_with_key_def)





end
